theory Spec2Isabelle
  imports Complex_Main "HOL-Library.Monad_Syntax"
begin

section \<open>The array abstraction used by \<open>binned.py\<close>\<close>

text \<open>
  \<open>binned.py\<close> is written against MXNet's \<open>NDArray\<close> interface (\<open>F = mx.nd\<close>).
  An array is a shape together with its entries, addressed by an index list of the
  length of the shape.  Entries are real numbers (the float32 entries read as the reals
  they denote: infinities, NaN and rounding are outside this development, but for the
  underflow of \<open>exp\<close> to zero) or integers
  (the int32 arrays of selected bin indices, which never leave \<open>0 .. num_bins\<close>).
  An operation of the library that raises \<open>MXNetError\<close> returns \<open>None\<close>.
\<close>

record 'a NDArray =
  shape :: "nat list"
  item :: "nat list \<Rightarrow> 'a"

definition valid_index :: "nat list \<Rightarrow> nat list \<Rightarrow> bool" where
  "valid_index shp idx = list_all2 (\<lambda>i d. i < d) idx shp"

text \<open>\<open>mx.nd.array\<close> on a Python list, and on a list of rows.\<close>

definition array1 :: "'a list \<Rightarrow> 'a NDArray" where
  "array1 xs = \<lparr>shape = [length xs], item = (\<lambda>idx. xs ! (idx ! 0))\<rparr>"

definition array2 :: "'a list list \<Rightarrow> 'a NDArray" where
  "array2 rows =
     \<lparr>shape = [length rows, length (rows ! 0)],
      item = (\<lambda>idx. rows ! (idx ! 0) ! (idx ! 1))\<rparr>"

definition array3 :: "'a list list list \<Rightarrow> 'a NDArray" where
  "array3 blocks =
     \<lparr>shape = [length blocks, length (blocks ! 0), length (blocks ! 0 ! 0)],
      item = (\<lambda>idx. blocks ! (idx ! 0) ! (idx ! 1) ! (idx ! 2))\<rparr>"

subsection \<open>Elementwise operations\<close>

definition map_nd :: "('a \<Rightarrow> 'b) \<Rightarrow> 'a NDArray \<Rightarrow> 'b NDArray" where
  "map_nd f a = \<lparr>shape = shape a, item = (\<lambda>idx. f (item a idx))\<rparr>"

definition zeros_like :: "real NDArray \<Rightarrow> real NDArray" where
  "zeros_like a = map_nd (\<lambda>_. 0) a"

definition ones_like :: "real NDArray \<Rightarrow> real NDArray" where
  "ones_like a = map_nd (\<lambda>_. 1) a"

text \<open>\<open>a.astype("int32")\<close>: a float is truncated towards zero.\<close>

definition astype_int32 :: "real NDArray \<Rightarrow> int NDArray" where
  "astype_int32 a = map_nd (\<lambda>v. if 0 \<le> v then \<lfloor>v\<rfloor> else \<lceil>v\<rceil>) a"

text \<open>
  \<open>a.exp()\<close> on float32 entries: an exponential below \<open>2^-150\<close>, half of the least
  positive float32, is rounded to zero.  So a log-probability below about \<open>-104\<close> gives
  a bin of probability exactly zero.
\<close>

definition exp_float32 :: "real \<Rightarrow> real" where
  "exp_float32 v = (if exp v < 1 / 2 ^ 150 then 0 else exp v)"

subsection \<open>Broadcasting\<close>

text \<open>
  The \<open>broadcast_*\<close> operators align the two shapes at their last axis; the shorter
  shape is padded with leading ones; two dimensions are compatible when they are equal
  or one of them is one.  Shapes are compared last axis first.
\<close>

fun bshape_rev :: "nat list \<Rightarrow> nat list \<Rightarrow> nat list option" where
  "bshape_rev [] ys = Some ys"
| "bshape_rev (x # xs) [] = Some (x # xs)"
| "bshape_rev (x # xs) (y # ys) =
     (if x = y \<or> y = 1 then map_option ((#) x) (bshape_rev xs ys)
      else if x = 1 then map_option ((#) y) (bshape_rev xs ys)
      else None)"

definition broadcast_shape :: "nat list \<Rightarrow> nat list \<Rightarrow> nat list option" where
  "broadcast_shape s t = map_option rev (bshape_rev (rev s) (rev t))"

text \<open>The index of the operand's entry that lands at \<open>idx\<close> of the broadcast result.\<close>

definition bcast_index :: "nat list \<Rightarrow> nat list \<Rightarrow> nat list" where
  "bcast_index shp idx =
     map2 (\<lambda>d i. if d = 1 then 0 else i) shp (drop (length idx - length shp) idx)"

definition broadcast_op ::
  "('a \<Rightarrow> 'b \<Rightarrow> 'c) \<Rightarrow> 'a NDArray \<Rightarrow> 'b NDArray \<Rightarrow> 'c NDArray option" where
  "broadcast_op f a b =
     (case broadcast_shape (shape a) (shape b) of
        None \<Rightarrow> None
      | Some s \<Rightarrow>
          Some \<lparr>shape = s,
                item = (\<lambda>idx. f (item a (bcast_index (shape a) idx))
                                (item b (bcast_index (shape b) idx)))\<rparr>)"

definition broadcast_add :: "real NDArray \<Rightarrow> real NDArray \<Rightarrow> real NDArray option" where
  "broadcast_add = broadcast_op (+)"

definition broadcast_sub :: "real NDArray \<Rightarrow> real NDArray \<Rightarrow> real NDArray option" where
  "broadcast_sub = broadcast_op (-)"

definition broadcast_mul :: "real NDArray \<Rightarrow> real NDArray \<Rightarrow> real NDArray option" where
  "broadcast_mul = broadcast_op (*)"

text \<open>Comparisons return an array of \<open>1.0\<close> (true) and \<open>0.0\<close> (false).\<close>

definition broadcast_lesser_equal ::
  "real NDArray \<Rightarrow> real NDArray \<Rightarrow> real NDArray option" where
  "broadcast_lesser_equal = broadcast_op (\<lambda>x y. if x \<le> y then 1 else 0)"

definition broadcast_lesser :: "real NDArray \<Rightarrow> real NDArray \<Rightarrow> real NDArray option" where
  "broadcast_lesser = broadcast_op (\<lambda>x y. if x < y then 1 else 0)"

definition broadcast_greater :: "real NDArray \<Rightarrow> real NDArray \<Rightarrow> real NDArray option" where
  "broadcast_greater = broadcast_op (\<lambda>x y. if x > y then 1 else 0)"

subsection \<open>Axes\<close>

text \<open>An axis argument may be negative: \<open>-1\<close> is the last axis.\<close>

definition norm_axis :: "nat \<Rightarrow> int \<Rightarrow> nat option" where
  "norm_axis ndim axis =
     (let a = (if axis < 0 then axis + int ndim else axis)
      in if 0 \<le> a \<and> a < int ndim then Some (nat a) else None)"

text \<open>
  Arrays of this MXNet have at least one axis: a reduction or a selection that would
  leave no axis returns an array of shape \<open>(1,)\<close>.
\<close>

definition drop_axis :: "nat \<Rightarrow> 'a list \<Rightarrow> 'a list" where
  "drop_axis k xs = take k xs @ drop (Suc k) xs"

definition put_axis :: "nat \<Rightarrow> 'a \<Rightarrow> 'a list \<Rightarrow> 'a list" where
  "put_axis k x xs = take k xs @ [x] @ drop k xs"

definition expand_dims :: "'a NDArray \<Rightarrow> int \<Rightarrow> 'a NDArray option" where
  "expand_dims a axis =
     (let n = length (shape a);
          k = (if axis < 0 then axis + int n + 1 else axis)
      in if 0 \<le> k \<and> k \<le> int n
         then Some \<lparr>shape = put_axis (nat k) 1 (shape a),
                    item = (\<lambda>idx. item a (drop_axis (nat k) idx))\<rparr>
         else None)"

definition swapaxes :: "'a NDArray \<Rightarrow> nat \<Rightarrow> nat \<Rightarrow> 'a NDArray option" where
  "swapaxes a d1 d2 =
     (let s = shape a
      in if d1 < length s \<and> d2 < length s
         then Some \<lparr>shape = s[d1 := s ! d2, d2 := s ! d1],
                    item = (\<lambda>idx. item a (idx[d1 := idx ! d2, d2 := idx ! d1]))\<rparr>
         else None)"

text \<open>
  \<open>slice_axis(axis, begin, end)\<close>: a negative \<open>begin\<close> or \<open>end\<close> counts from the end
  of the axis, \<open>end=None\<close> is the size of the axis.  The library checks
  \<open>begin < end\<close> and \<open>end \<le> size\<close>: an empty slice is an error, not an empty array.
\<close>

definition slice_axis :: "'a NDArray \<Rightarrow> int \<Rightarrow> int \<Rightarrow> int option \<Rightarrow> 'a NDArray option" where
  "slice_axis a axis begin end =
     (case norm_axis (length (shape a)) axis of
        None \<Rightarrow> None
      | Some k \<Rightarrow>
          (let n = int (shape a ! k);
               b = (if begin < 0 then begin + n else begin);
               e = (case end of None \<Rightarrow> n
                    | Some e0 \<Rightarrow> if e0 < 0 then e0 + n else e0)
           in if 0 \<le> b \<and> b < e \<and> e \<le> n
              then Some \<lparr>shape = (shape a)[k := nat (e - b)],
                         item = (\<lambda>idx. item a (idx[k := idx ! k + nat b]))\<rparr>
              else None))"

definition squeeze :: "'a NDArray \<Rightarrow> int \<Rightarrow> 'a NDArray option" where
  "squeeze a axis =
     (case norm_axis (length (shape a)) axis of
        None \<Rightarrow> None
      | Some k \<Rightarrow>
          if shape a ! k \<noteq> 1 then None
          else if length (shape a) = 1 then Some a
          else Some \<lparr>shape = drop_axis k (shape a),
                     item = (\<lambda>idx. item a (put_axis k 0 idx))\<rparr>)"

text \<open>\<open>a.sum(axis=k)\<close>\<close>

definition sum_axis :: "real NDArray \<Rightarrow> int \<Rightarrow> real NDArray option" where
  "sum_axis a axis =
     (case norm_axis (length (shape a)) axis of
        None \<Rightarrow> None
      | Some k \<Rightarrow>
          if length (shape a) = 1
          then Some \<lparr>shape = [1],
                     item = (\<lambda>idx. \<Sum>j\<leftarrow>[0..<shape a ! k]. item a [j])\<rparr>
          else Some \<lparr>shape = drop_axis k (shape a),
                     item = (\<lambda>idx. \<Sum>j\<leftarrow>[0..<shape a ! k]. item a (put_axis k j idx))\<rparr>)"

text \<open>\<open>F.concat(a, b, ..., dim=k)\<close>: the arrays agree on every axis but \<open>k\<close>.\<close>

fun concat_item :: "'a NDArray \<Rightarrow> 'a NDArray list \<Rightarrow> nat \<Rightarrow> nat list \<Rightarrow> 'a" where
  "concat_item a [] k idx = item a idx"
| "concat_item a (b # bs) k idx =
     (if idx ! k < shape a ! k then item a idx
      else concat_item b bs k (idx[k := idx ! k - shape a ! k]))"

definition concat :: "'a NDArray list \<Rightarrow> int \<Rightarrow> 'a NDArray option" where
  "concat arrs axis =
     (case arrs of
        [] \<Rightarrow> None
      | a # rest \<Rightarrow>
          (case norm_axis (length (shape a)) axis of
             None \<Rightarrow> None
           | Some k \<Rightarrow>
               if list_all (\<lambda>b. drop_axis k (shape b) = drop_axis k (shape a)
                                 \<and> length (shape b) = length (shape a)) arrs
               then Some \<lparr>shape = (shape a)[k := (\<Sum>b\<leftarrow>arrs. shape b ! k)],
                          item = concat_item a rest k\<rparr>
               else None))"

text \<open>
  \<open>F.where(condition, x, y)\<close>: \<open>x\<close> where the condition is not zero, \<open>y\<close> elsewhere.
  The three arrays have one shape, or the condition is a vector that selects rows.
\<close>

definition nd_where :: "real NDArray \<Rightarrow> 'a NDArray \<Rightarrow> 'a NDArray \<Rightarrow> 'a NDArray option" where
  "nd_where cond x y =
     (if shape x \<noteq> shape y then None
      else if shape cond = shape x
      then Some \<lparr>shape = shape x,
                 item = (\<lambda>idx. if item cond idx \<noteq> 0 then item x idx else item y idx)\<rparr>
      else if shape cond = take 1 (shape x)
      then Some \<lparr>shape = shape x,
                 item = (\<lambda>idx. if item cond (take 1 idx) \<noteq> 0 then item x idx else item y idx)\<rparr>
      else None)"

text \<open>
  \<open>data.pick(index, axis)\<close> with the defaults \<open>keepdims=False\<close> and \<open>mode='clip'\<close>:
  the entry of \<open>data\<close> along \<open>axis\<close> that \<open>index\<close> names, an index outside the axis
  being clipped to its first or last position.  The index array has the shape of
  \<open>data\<close> without \<open>axis\<close> (or with that axis of size one).
\<close>

definition clip_index :: "nat \<Rightarrow> int \<Rightarrow> nat" where
  "clip_index n i = nat (max 0 (min (int n - 1) i))"

definition pick :: "'a NDArray \<Rightarrow> int NDArray \<Rightarrow> int \<Rightarrow> 'a NDArray option" where
  "pick data index axis =
     (case norm_axis (length (shape data)) axis of
        None \<Rightarrow> None
      | Some k \<Rightarrow>
          (let reduced = (if length (shape data) = 1 then [1] else drop_axis k (shape data))
           in if shape index = reduced \<and> length (shape data) = 1
              then Some \<lparr>shape = reduced,
                         item = (\<lambda>idx. item data [clip_index (shape data ! k) (item index idx)])\<rparr>
              else if shape index = reduced
              then Some \<lparr>shape = reduced,
                         item = (\<lambda>idx. item data
                                   (put_axis k (clip_index (shape data ! k) (item index idx)) idx))\<rparr>
              else if shape index = (shape data)[k := 1]
              then Some \<lparr>shape = reduced,
                         item = (\<lambda>idx. item data
                                   (put_axis k (clip_index (shape data ! k)
                                      (item index (put_axis k 0 idx))) idx))\<rparr>
              else None))"

text \<open>\<open>F.repeat(a, repeats=n, axis=k)\<close>: every entry along the axis \<open>n\<close> times.\<close>

definition repeat :: "'a NDArray \<Rightarrow> nat \<Rightarrow> int \<Rightarrow> 'a NDArray option" where
  "repeat a repeats axis =
     (case norm_axis (length (shape a)) axis of
        None \<Rightarrow> None
      | Some k \<Rightarrow>
          if repeats = 0 then None
          else Some \<lparr>shape = (shape a)[k := shape a ! k * repeats],
                     item = (\<lambda>idx. item a (idx[k := idx ! k div repeats]))\<rparr>)"

text \<open>
  \<open>a.reshape_like(b)\<close>: the entries of \<open>a\<close>, in row-major order, under the shape of
  \<open>b\<close>; the two arrays hold the same number of entries.
\<close>

fun ravel :: "nat list \<Rightarrow> nat list \<Rightarrow> nat" where
  "ravel (d # ds) (i # idx) = i * prod_list ds + ravel ds idx"
| "ravel _ _ = 0"

fun unravel :: "nat list \<Rightarrow> nat \<Rightarrow> nat list" where
  "unravel [] pos = []"
| "unravel (d # ds) pos = (pos div prod_list ds) # unravel ds (pos mod prod_list ds)"

definition reshape_like :: "'a NDArray \<Rightarrow> 'b NDArray \<Rightarrow> 'a NDArray option" where
  "reshape_like a b =
     (if prod_list (shape a) = prod_list (shape b)
      then Some \<lparr>shape = shape b,
                 item = (\<lambda>idx. item a (unravel (shape a) (ravel (shape b) idx)))\<rparr>
      else None)"

subsection \<open>The sequential scan\<close>

text \<open>
  \<open>outputs, states = F.contrib.foreach(body, data, init_states)\<close> runs
  \<open>out, states = body(data[i], states)\<close> for \<open>i\<close> along the first axis of \<open>data\<close>, in
  order, and returns the outputs of the steps and the last states.
\<close>

definition data_at :: "'a NDArray \<Rightarrow> nat \<Rightarrow> 'a NDArray" where
  "data_at a i =
     (if length (shape a) = 1
      then \<lparr>shape = [1], item = (\<lambda>idx. item a [i])\<rparr>
      else \<lparr>shape = tl (shape a), item = (\<lambda>idx. item a (i # idx))\<rparr>)"

fun foreach_loop ::
  "('a NDArray \<Rightarrow> 's \<Rightarrow> ('o \<times> 's) option) \<Rightarrow> 'a NDArray \<Rightarrow> nat list \<Rightarrow> 's
     \<Rightarrow> ('o list \<times> 's) option" where
  "foreach_loop body data [] states = Some ([], states)"
| "foreach_loop body data (i # rest) states =
     (case body (data_at data i) states of
        None \<Rightarrow> None
      | Some (out, states') \<Rightarrow>
          (case foreach_loop body data rest states' of
             None \<Rightarrow> None
           | Some (outs, final) \<Rightarrow> Some (out # outs, final)))"

definition foreach ::
  "('a NDArray \<Rightarrow> 's \<Rightarrow> ('o \<times> 's) option) \<Rightarrow> 'a NDArray \<Rightarrow> 's \<Rightarrow> ('o list \<times> 's) option" where
  "foreach body data init_states =
     (case shape data of
        [] \<Rightarrow> None
      | n # _ \<Rightarrow> foreach_loop body data [0..<n] init_states)"

section \<open>The class \<open>Binned\<close>\<close>

text \<open>
  The object holds the two arrays it was built from, the edges computed at
  construction, and the cache \<open>_bin_probs\<close> of the property \<open>bin_probs\<close>.  A method
  that reads \<open>self.bin_probs\<close> may fill the cache, so every method returns the object
  next to its result.
\<close>

record Binned =
  bin_centers :: "real NDArray"
  bin_log_probs :: "real NDArray"
  private_bin_probs :: "real NDArray option"
  bin_edges :: "real NDArray"

definition compute_edges :: "real NDArray \<Rightarrow> real NDArray option" where
  "compute_edges centers = do {
     first \<leftarrow> slice_axis centers (-1) 0 (Some 1);
     let low = map_nd (\<lambda>v. v - 10 ^ 10) (zeros_like first);
     first' \<leftarrow> slice_axis centers (-1) 0 (Some 1);
     let high = map_nd (\<lambda>v. v + 10 ^ 10) (zeros_like first');
     upper \<leftarrow> slice_axis centers (-1) 1 None;
     lower \<leftarrow> slice_axis centers (-1) 0 (Some (-1));
     both \<leftarrow> broadcast_add upper lower;
     let means = map_nd (\<lambda>v. v / 2) both;
     concat [low, means, high] (-1)
   }"

definition Binned_init :: "real NDArray \<Rightarrow> real NDArray \<Rightarrow> Binned option" where
  "Binned_init log_probs centers = do {
     edges \<leftarrow> compute_edges centers;
     Some \<lparr>bin_centers = centers, bin_log_probs = log_probs,
           private_bin_probs = None, bin_edges = edges\<rparr>
   }"

definition bin_probs :: "Binned \<Rightarrow> real NDArray \<times> Binned" where
  "bin_probs self =
     (case private_bin_probs self of
        None \<Rightarrow>
          (let p = map_nd exp_float32 (bin_log_probs self)
           in (p, self\<lparr>private_bin_probs := Some p\<rparr>))
      | Some p \<Rightarrow> (p, self))"

definition mean :: "Binned \<Rightarrow> real NDArray option \<times> Binned" where
  "mean self =
     (let (probs, self1) = bin_probs self
      in (do { weighted \<leftarrow> broadcast_mul probs (bin_centers self1);
               sum_axis weighted (-1) },
          self1))"

definition stddev :: "Binned \<Rightarrow> real NDArray option \<times> Binned" where
  "stddev self =
     (let (probs, self1) = bin_probs self
      in case (do { weighted \<leftarrow> broadcast_mul probs (map_nd (\<lambda>v. v * v) (bin_centers self1));
                    sum_axis weighted (-1) }) of
           None \<Rightarrow> (None, self1)
         | Some ex2 \<Rightarrow>
             (let (m, self2) = mean self1
              in (do { mu \<leftarrow> m;
                       radicand \<leftarrow> broadcast_sub ex2 (map_nd (\<lambda>v. v * v) mu);
                       Some (map_nd sqrt radicand) },
                  self2)))"

definition log_prob :: "Binned \<Rightarrow> real NDArray \<Rightarrow> real NDArray option \<times> Binned" where
  "log_prob self x =
     (do { x1 \<leftarrow> expand_dims x (-1);
           left_edges \<leftarrow> slice_axis (bin_edges self) (-1) 0 (Some (-1));
           right_edges \<leftarrow> slice_axis (bin_edges self) (-1) 1 None;
           ge_left \<leftarrow> broadcast_lesser_equal left_edges x1;
           lt_right \<leftarrow> broadcast_lesser x1 right_edges;
           bin_mask \<leftarrow> broadcast_mul ge_left lt_right;
           masked \<leftarrow> broadcast_mul (bin_log_probs self) bin_mask;
           sum_axis masked (-1) },
      self)"

definition cdf :: "Binned \<Rightarrow> real NDArray \<Rightarrow> real NDArray option \<times> Binned" where
  "cdf self x =
     (case (do { x1 \<leftarrow> expand_dims x (-1);
                 broadcast_lesser_equal (bin_centers self) x1 }) of
        None \<Rightarrow> (None, self)
      | Some bin_mask \<Rightarrow>
          (let (probs, self1) = bin_probs self
           in (do { masked \<leftarrow> broadcast_mul probs bin_mask;
                    sum_axis masked (-1) },
               self1)))"

text \<open>
  \<open>quantile\<close>, lines 141 to 161: the scan over the first axis of the swapped
  probabilities.  \<open>step\<close> is the closure handed to \<open>foreach\<close>; it reads
  \<open>zeros_batch_size\<close> and the expanded \<open>level\<close> of the enclosing call.  The scan
  returns \<open>zeros_cdf\<close> and the last \<open>idx\<close>, which the rest of \<open>quantile\<close> uses.
\<close>

definition step ::
  "real NDArray \<Rightarrow> real NDArray \<Rightarrow> real NDArray \<Rightarrow> real NDArray \<times> int NDArray
     \<Rightarrow> (real NDArray \<times> (real NDArray \<times> int NDArray)) option" where
  "step zeros_batch_size level p state =
     (case state of (cdf0, idx0) \<Rightarrow> do {
        p1 \<leftarrow> expand_dims p 1;
        cdf1 \<leftarrow> broadcast_add cdf0 p1;
        above \<leftarrow> broadcast_greater cdf1 level;
        idx1 \<leftarrow> nd_where above idx0 (map_nd (\<lambda>v. v + 1) idx0);
        Some (zeros_batch_size, (cdf1, idx1))
      })"

definition quantile_scan ::
  "Binned \<Rightarrow> real NDArray \<Rightarrow> (real NDArray \<times> int NDArray) option \<times> Binned" where
  "quantile_scan self level =
     (let (bp, self1) = bin_probs self
      in (do { probs \<leftarrow> swapaxes bp 0 1;
               row \<leftarrow> slice_axis probs 0 0 (Some 1);
               row0 \<leftarrow> squeeze row 0;
               let zeros_batch_size = zeros_like row0;
               level1 \<leftarrow> expand_dims level 0;
               zb \<leftarrow> expand_dims zeros_batch_size 1;
               zeros_cdf \<leftarrow> broadcast_add zb (zeros_like level1);
               let start_state = (zeros_cdf, astype_int32 zeros_cdf);
               (outs, states) \<leftarrow> foreach (step zeros_batch_size level1) probs start_state;
               Some (zeros_cdf, snd states) },
          self1))"

definition quantile :: "Binned \<Rightarrow> real NDArray \<Rightarrow> real NDArray option \<times> Binned" where
  "quantile self level =
     (let (scan, self1) = quantile_scan self level
      in (do { (zeros_cdf, idx) \<leftarrow> scan;
               centers1 \<leftarrow> expand_dims (bin_centers self1) 1;
               zeros1 \<leftarrow> expand_dims zeros_cdf (-1);
               centers_expanded \<leftarrow> broadcast_add centers1 zeros1;
               a \<leftarrow> pick centers_expanded idx (-1);
               swapaxes a 0 1 },
          self1))"

text \<open>
  \<open>sample\<close>: the categorical draw \<open>F.sample_multinomial\<close> and the helper
  \<open>_sample_multiple\<close> of the base module are parameters.
\<close>

definition sample ::
  "Binned \<Rightarrow> (real NDArray \<Rightarrow> int NDArray option)
     \<Rightarrow> ((real NDArray \<Rightarrow> real NDArray option) \<Rightarrow> real NDArray \<Rightarrow> nat option
           \<Rightarrow> real NDArray option)
     \<Rightarrow> nat option \<Rightarrow> real NDArray option \<times> Binned" where
  "sample self sample_multinomial sample_multiple num_samples =
     (let s = (\<lambda>probs. do {
                 indices \<leftarrow> sample_multinomial probs;
                 (case num_samples of
                    None \<Rightarrow> do {
                      picked \<leftarrow> pick (bin_centers self) indices (-1);
                      reshape_like picked (zeros_like (map_nd real_of_int indices)) }
                  | Some n \<Rightarrow> do {
                      centers1 \<leftarrow> expand_dims (bin_centers self) 0;
                      repeated \<leftarrow> repeat centers1 n 0;
                      pick repeated indices (-1) }) });
          (probs, self1) = bin_probs self
      in (sample_multiple s probs num_samples, self1))"

text \<open>\<open>args\<close>: the list \<open>[self.bin_log_probs, self.bin_centers]\<close>.\<close>

definition args :: "Binned \<Rightarrow> real NDArray list" where
  "args self = [bin_log_probs self, bin_centers self]"

section \<open>\<open>BinnedOutput.distribution\<close>\<close>

definition distribution ::
  "real NDArray list \<Rightarrow> real NDArray option \<Rightarrow> real NDArray option \<Rightarrow> Binned option" where
  "distribution arguments loc scale =
     (case arguments of
        probs # centers # _ \<Rightarrow> do {
          centers1 \<leftarrow> broadcast_mul centers (ones_like probs);
          centers2 \<leftarrow> (case scale of
                         None \<Rightarrow> Some centers1
                       | Some sc \<Rightarrow> do { sc1 \<leftarrow> expand_dims sc (-1);
                                          broadcast_mul centers1 sc1 });
          centers3 \<leftarrow> (case loc of
                         None \<Rightarrow> Some centers2
                       | Some lc \<Rightarrow> do { lc1 \<leftarrow> expand_dims lc (-1);
                                          broadcast_add centers2 lc1 });
          Binned_init probs centers3 }
      | _ \<Rightarrow> None)"

section \<open>Objects in use\<close>

text \<open>
  The objects a caller can hold: what the constructor returns, and what a public
  operation leaves behind.
\<close>

inductive reachable :: "Binned \<Rightarrow> bool" where
  constructed: "Binned_init log_probs centers = Some self \<Longrightarrow> reachable self"
| after_bin_probs: "reachable self \<Longrightarrow> reachable (snd (bin_probs self))"
| after_mean: "reachable self \<Longrightarrow> reachable (snd (mean self))"
| after_stddev: "reachable self \<Longrightarrow> reachable (snd (stddev self))"
| after_log_prob: "reachable self \<Longrightarrow> reachable (snd (log_prob self x))"
| after_cdf: "reachable self \<Longrightarrow> reachable (snd (cdf self x))"
| after_quantile: "reachable self \<Longrightarrow> reachable (snd (quantile self level))"
| after_sample:
    "reachable self \<Longrightarrow> reachable (snd (sample self sample_multinomial sample_multiple n))"

definition cache_ok :: "Binned \<Rightarrow> bool" where
  "cache_ok self \<longleftrightarrow>
     private_bin_probs self = None
     \<or> private_bin_probs self = Some (map_nd exp_float32 (bin_log_probs self))"

definition binned_inv :: "Binned \<Rightarrow> bool" where
  "binned_inv self \<longleftrightarrow>
     cache_ok self \<and> compute_edges (bin_centers self) = Some (bin_edges self)"

text \<open>Two objects hold the same three arrays.\<close>

definition same_arrays :: "Binned \<Rightarrow> Binned \<Rightarrow> bool" where
  "same_arrays self self' \<longleftrightarrow>
     bin_log_probs self' = bin_log_probs self
     \<and> bin_centers self' = bin_centers self
     \<and> bin_edges self' = bin_edges self"

section \<open>Notions of the specification\<close>

text \<open>The entry of a result at an index, and the shape of a result.\<close>

definition entry :: "'a NDArray option \<Rightarrow> nat list \<Rightarrow> 'a option" where
  "entry r idx = map_option (\<lambda>a. item a idx) r"

definition shape_of :: "'a NDArray option \<Rightarrow> nat list option" where
  "shape_of r = map_option shape r"

text \<open>
  For a batch of rank one: the probability mass of the first \<open>k\<close> bins of batch
  element \<open>b\<close>; the first bin whose cumulative mass strictly exceeds a level (the
  number of bins when none does); and the first bin whose cumulative mass meets or
  exceeds the level.
\<close>

definition cumulative_prob :: "real NDArray \<Rightarrow> nat \<Rightarrow> nat \<Rightarrow> real" where
  "cumulative_prob probs b k = (\<Sum>j<k. item probs [b, j])"

definition first_exceeding :: "real NDArray \<Rightarrow> nat \<Rightarrow> nat \<Rightarrow> real \<Rightarrow> nat" where
  "first_exceeding probs b n level =
     (case find (\<lambda>i. level < cumulative_prob probs b (Suc i)) [0..<n] of
        Some i \<Rightarrow> i
      | None \<Rightarrow> n)"

definition first_reaching :: "real NDArray \<Rightarrow> nat \<Rightarrow> nat \<Rightarrow> real \<Rightarrow> nat" where
  "first_reaching probs b n level =
     (case find (\<lambda>i. level \<le> cumulative_prob probs b (Suc i)) [0..<n] of
        Some i \<Rightarrow> i
      | None \<Rightarrow> n)"

text \<open>
  One entry of the scan of \<open>quantile\<close>: the running sum \<open>cdf\<close> and the running index
  \<open>idx\<close> after \<open>k\<close> steps, for the bin probabilities \<open>p 0, p 1, ...\<close> of one batch
  element and one level.
\<close>

primrec running_cdf :: "(nat \<Rightarrow> real) \<Rightarrow> nat \<Rightarrow> real" where
  "running_cdf p 0 = 0"
| "running_cdf p (Suc k) = running_cdf p k + p k"

primrec running_idx :: "(nat \<Rightarrow> real) \<Rightarrow> real \<Rightarrow> nat \<Rightarrow> nat" where
  "running_idx p lev 0 = 0"
| "running_idx p lev (Suc k) =
     (if running_cdf p (Suc k) > lev then running_idx p lev k else Suc (running_idx p lev k))"

definition scan_inv ::
  "real NDArray \<Rightarrow> real NDArray \<Rightarrow> nat \<Rightarrow> nat \<Rightarrow> nat \<Rightarrow> real NDArray \<times> int NDArray \<Rightarrow> bool" where
  "scan_inv P level B L k st \<longleftrightarrow>
     shape (fst st) = [B, L] \<and> shape (snd st) = [B, L] \<and>
     (\<forall>b<B. \<forall>l<L.
        item (fst st) [b, l] = running_cdf (\<lambda>j. item P [b, j]) k \<and>
        item (snd st) [b, l] = int (running_idx (\<lambda>j. item P [b, j]) (item level [l]) k))"

text \<open>
  The example of the specification: one distribution with bin probabilities
  \<open>0.2, 0.3, 0.5\<close> and bin centers \<open>1, 2, 3\<close>.
\<close>

definition example_log_probs :: "real NDArray" where
  "example_log_probs = array2 [[ln (1 / 5), ln (3 / 10), ln (1 / 2)]]"

definition example_centers :: "real NDArray" where
  "example_centers = array2 [[1, 2, 3]]"

definition example_binned :: Binned where
  "example_binned = the (Binned_init example_log_probs example_centers)"



text \<open>A batch of rank two: two by two copies of the example.\<close>

definition example_rank2_log_probs :: "real NDArray" where
  "example_rank2_log_probs =
     array3 [[[ln (1 / 5), ln (3 / 10), ln (1 / 2)], [ln (1 / 5), ln (3 / 10), ln (1 / 2)]],
             [[ln (1 / 5), ln (3 / 10), ln (1 / 2)], [ln (1 / 5), ln (3 / 10), ln (1 / 2)]]]"

definition example_rank2_centers :: "real NDArray" where
  "example_rank2_centers =
     array3 [[[1, 2, 3], [1, 2, 3]], [[1, 2, 3], [1, 2, 3]]]"

definition example_rank2_binned :: Binned where
  "example_rank2_binned = the (Binned_init example_rank2_log_probs example_rank2_centers)"

section \<open>The exponential\<close>

lemma exp_float32_nonneg [simp]: "0 \<le> exp_float32 v"
  by (simp add: exp_float32_def)

lemma exp_float32_ln: "1 / 2 ^ 150 \<le> x \<Longrightarrow> exp_float32 (ln x) = x"
proof -
  assume x: "1 / 2 ^ 150 \<le> x"
  have "(0::real) < 1 / 2 ^ 150"
    by simp
  then have "0 < x"
    using x by (rule less_le_trans)
  then show ?thesis
    using x by (simp add: exp_float32_def)
qed


section \<open>Lists and indices\<close>

lemma nth_snoc_len: "length xs = n \<Longrightarrow> (xs @ [x]) ! n = x"
  by auto

lemma upd_snoc_len: "length xs = n \<Longrightarrow> (xs @ [x])[n := y] = xs @ [y]"
  by auto

lemma take_snoc_len: "length xs = n \<Longrightarrow> take n (xs @ [x]) = xs"
  by auto

lemma drop_snoc_len: "length xs = n \<Longrightarrow> drop n (xs @ [x]) = [x]"
  by auto

lemmas snoc_len = nth_snoc_len upd_snoc_len take_snoc_len drop_snoc_len

lemma put_axis_len: "length xs = n \<Longrightarrow> put_axis n x xs = xs @ [x]"
  by (simp add: put_axis_def)

lemma drop_axis_len: "length xs = n \<Longrightarrow> drop_axis n (xs @ [x]) = xs"
  by (simp add: drop_axis_def)

lemma norm_axis_last [simp]: "norm_axis (Suc n) (-1) = Some n"
  by (simp add: norm_axis_def)

lemma valid_index_length: "valid_index shp idx \<Longrightarrow> length idx = length shp"
  by (simp add: valid_index_def list_all2_lengthD)

lemma valid_index_snoc:
  "valid_index batch bidx \<Longrightarrow> i < n \<Longrightarrow> valid_index (batch @ [n]) (bidx @ [i])"
  by (simp add: valid_index_def list_all2_appendI)

section \<open>Broadcasting of the shapes that occur\<close>

lemma bshape_rev_same [simp]: "bshape_rev xs xs = Some xs"
  by (induction xs) auto

lemma broadcast_shape_same [simp]: "broadcast_shape s s = Some s"
  by (simp add: broadcast_shape_def)

lemma broadcast_shape_last_one [simp]:
  "broadcast_shape (batch @ [n]) (batch @ [Suc 0]) = Some (batch @ [n])"
  by (simp add: broadcast_shape_def)

lemma broadcast_shape_one_last [simp]:
  "broadcast_shape (batch @ [Suc 0]) (batch @ [n]) = Some (batch @ [n])"
  by (simp add: broadcast_shape_def)

lemma broadcast_shape_vector [simp]:
  "broadcast_shape [n] (batch @ [n]) = Some (batch @ [n])"
  by (simp add: broadcast_shape_def)

lemma broadcast_shape_expanded [simp]:
  "2 \<le> N \<Longrightarrow> broadcast_shape [B, Suc 0, N] [B, L, Suc 0] = Some [B, L, N]"
  by (cases "L = Suc 0") (simp_all add: broadcast_shape_def)

lemma map2_bcast_valid:
  "list_all2 (\<lambda>i d. i < d) idx shp
   \<Longrightarrow> map2 (\<lambda>d i. if d = 1 then 0 else i) shp idx = (idx :: nat list)"
  by (induction idx shp rule: list_all2_induct) auto

lemma bcast_index_valid: "valid_index shp idx \<Longrightarrow> bcast_index shp idx = idx"
  using map2_bcast_valid [of idx shp]
  by (simp add: valid_index_def bcast_index_def list_all2_lengthD)

lemma bcast_index_snoc:
  "valid_index batch bidx \<Longrightarrow> i < n \<Longrightarrow> bcast_index (batch @ [n]) (bidx @ [i]) = bidx @ [i]"
  by (simp add: bcast_index_valid valid_index_snoc)

lemma bcast_index_last_one:
  "valid_index batch bidx \<Longrightarrow> bcast_index (batch @ [Suc 0]) (bidx @ [i]) = bidx @ [0]"
  using map2_bcast_valid [of bidx batch]
  by (simp add: valid_index_def bcast_index_def list_all2_lengthD)

lemma bcast_index_vector:
  "2 \<le> n \<Longrightarrow> bcast_index [n] (bidx @ [i]) = [i]"
  by (simp add: bcast_index_def)

lemma bcast_if [simp]: "i < d \<Longrightarrow> (if d = Suc 0 then 0 else i) = (i::nat)"
  by auto

section \<open>Operations along the last axis\<close>

lemma sum_axis_last:
  assumes "shape a = batch @ [N]" "batch \<noteq> []"
  shows "sum_axis a (-1) = Some \<lparr>shape = batch,
           item = (\<lambda>idx. \<Sum>j<N. item a (put_axis (length batch) j idx))\<rparr>"
  using assms
  by (simp add: sum_axis_def drop_axis_def interv_sum_list_conv_sum_set_nat atLeast0LessThan)

lemma expand_dims_last:
  "expand_dims a (-1) = Some \<lparr>shape = shape a @ [1],
      item = (\<lambda>idx. item a (drop_axis (length (shape a)) idx))\<rparr>"
  by (simp add: expand_dims_def put_axis_def)

lemma clip_index_less: "0 < n \<Longrightarrow> clip_index n i < n"
  by (auto simp: clip_index_def)

lemma clip_index_nat: "0 < n \<Longrightarrow> clip_index n (int m) = min m (n - 1)"
  by (auto simp: clip_index_def)

section \<open>Edges\<close>

text \<open>
  \<open>_compute_edges\<close> succeeds exactly when the bin axis holds at least two centers:
  the slices \<open>[1:]\<close> and \<open>[:-1]\<close> of a single center are empty.
\<close>

lemma compute_edges_Some:
  assumes "shape c = batch @ [N]" "2 \<le> N"
  shows "\<exists>e. compute_edges c = Some e \<and> shape e = batch @ [Suc N]"
  using assms
  by (simp add: compute_edges_def slice_axis_def zeros_like_def map_nd_def broadcast_add_def
      broadcast_op_def concat_def drop_axis_def Let_def)

lemma compute_edges_two:
  assumes "shape c = batch @ [N]" "compute_edges c = Some e"
  shows "2 \<le> N"
proof (rule ccontr)
  assume "\<not> 2 \<le> N"
  then have "slice_axis c (-1) 1 None = None"
    using assms(1) by (simp add: slice_axis_def)
  then have "compute_edges c = None"
    by (simp add: compute_edges_def split: Option.bind_split)
  with assms(2) show False by simp
qed

lemma compute_edges_item:
  assumes "shape c = batch @ [N]" "valid_index batch bidx"
    "compute_edges c = Some e" "i \<le> N"
  shows "item e (bidx @ [i]) =
     (if i = 0 then - (10 ^ 10) else if i = N then 10 ^ 10
      else (item c (bidx @ [i]) + item c (bidx @ [i - 1])) / 2)"
proof -
  have N: "2 \<le> N"
    using assms(1,3) by (rule compute_edges_two)
  have len: "length bidx = length batch"
    using assms(2) by (rule valid_index_length)
  have v: "valid_index (batch @ [N - Suc 0]) (bidx @ [i - Suc 0])" if "0 < i" "i < N"
    using that assms(2) by (intro valid_index_snoc) auto
  have n1: "nat (int N - 1) = N - Suc 0"
    by simp
  show ?thesis
    using assms(1,3,4) N len v
    by (auto simp: n1 snoc_len compute_edges_def slice_axis_def zeros_like_def map_nd_def
        broadcast_add_def broadcast_op_def concat_def drop_axis_def Let_def bcast_index_valid)
qed

section \<open>The cache and the fields\<close>

lemma fst_bin_probs: "cache_ok self \<Longrightarrow> fst (bin_probs self) = map_nd exp_float32 (bin_log_probs self)"
  by (auto simp: cache_ok_def bin_probs_def Let_def)

lemma snd_bin_probs_fields [simp]:
  "bin_centers (snd (bin_probs self)) = bin_centers self"
  "bin_log_probs (snd (bin_probs self)) = bin_log_probs self"
  "bin_edges (snd (bin_probs self)) = bin_edges self"
  by (simp_all add: bin_probs_def Let_def split: option.splits)

lemma snd_bin_probs_cache:
  "private_bin_probs (snd (bin_probs self)) = Some (fst (bin_probs self))"
  by (simp add: bin_probs_def Let_def split: option.splits)

lemma bin_probs_cached: "private_bin_probs self = Some p \<Longrightarrow> bin_probs self = (p, self)"
  by (simp add: bin_probs_def)

lemma bin_probs_twice: "bin_probs (snd (bin_probs self)) = (fst (bin_probs self), snd (bin_probs self))"
  by (simp add: bin_probs_cached snd_bin_probs_cache)

lemma snd_mean: "snd (mean self) = snd (bin_probs self)"
  by (simp add: mean_def case_prod_beta)

lemma snd_stddev: "snd (stddev self) = snd (bin_probs self)"
  by (simp add: stddev_def case_prod_beta snd_mean bin_probs_twice split: option.splits)

lemma snd_log_prob: "snd (log_prob self x) = self"
  by (simp add: log_prob_def)

lemma snd_cdf: "snd (cdf self x) = self \<or> snd (cdf self x) = snd (bin_probs self)"
  by (simp add: cdf_def case_prod_beta split: option.splits)

lemma snd_quantile_scan: "snd (quantile_scan self level) = snd (bin_probs self)"
  by (simp add: quantile_scan_def case_prod_beta)

lemma snd_quantile: "snd (quantile self level) = snd (bin_probs self)"
  by (simp add: quantile_def case_prod_beta snd_quantile_scan)

lemma snd_sample: "snd (sample self draw helper n) = snd (bin_probs self)"
  by (simp add: sample_def case_prod_beta Let_def)

lemma binned_inv_bin_probs: "binned_inv self \<Longrightarrow> binned_inv (snd (bin_probs self))"
  by (auto simp: binned_inv_def cache_ok_def bin_probs_def Let_def)

lemma reachable_inv: "reachable self \<Longrightarrow> binned_inv self"
proof (induction rule: reachable.induct)
  case (constructed log_probs centers self)
  then show ?case
    by (auto simp: Binned_init_def binned_inv_def cache_ok_def split: Option.bind_splits)
next
  case (after_cdf self x)
  then show ?case
    using snd_cdf [of self x] by (auto simp: binned_inv_bin_probs)
qed (simp_all add: snd_mean snd_stddev snd_log_prob snd_quantile snd_sample binned_inv_bin_probs)


lemma reachable_cache: "reachable self \<Longrightarrow> cache_ok self"
  using reachable_inv by (simp add: binned_inv_def)

lemma reachable_edges:
  "reachable self \<Longrightarrow> compute_edges (bin_centers self) = Some (bin_edges self)"
  using reachable_inv by (simp add: binned_inv_def)

lemma reachable_two:
  "reachable self \<Longrightarrow> shape (bin_centers self) = batch @ [N] \<Longrightarrow> 2 \<le> N"
  using reachable_edges compute_edges_two by blast

lemma Binned_init_fields:
  assumes "Binned_init log_probs centers = Some self"
  shows "bin_log_probs self = log_probs" "bin_centers self = centers"
    "private_bin_probs self = None" "compute_edges centers = Some (bin_edges self)"
  using assms by (auto simp: Binned_init_def split: Option.bind_splits)

lemma example_binned_init:
  "Binned_init example_log_probs example_centers = Some example_binned"
proof -
  have "shape example_centers = [1] @ [3]"
    by (simp add: example_centers_def array2_def)
  then obtain e where "compute_edges example_centers = Some e"
    using compute_edges_Some [of example_centers "[1]" 3] by auto
  then show ?thesis
    by (simp add: example_binned_def Binned_init_def)
qed

lemma example_binned_reachable: "reachable example_binned"
  using example_binned_init by (rule reachable.constructed)

lemma example_binned_fields:
  "bin_log_probs example_binned = example_log_probs"
  "bin_centers example_binned = example_centers"
  using Binned_init_fields [OF example_binned_init] by simp_all

lemma example_shapes:
  "shape example_log_probs = [1, 3]" "shape example_centers = [1, 3]"
  by (simp_all add: example_log_probs_def example_centers_def array2_def)

lemma example_probs:
  "exp_float32 (item example_log_probs [0, 0]) = 1 / 5"
  "exp_float32 (item example_log_probs [0, Suc 0]) = 3 / 10"
  "exp_float32 (item example_log_probs [0, 2]) = 1 / 2"
  by (simp_all add: example_log_probs_def array2_def exp_float32_ln)

lemma example_center_values:
  "item example_centers [0, 0] = 1"
  "item example_centers [0, Suc 0] = 2"
  "item example_centers [0, 2] = 3"
  by (simp_all add: example_centers_def array2_def)

section \<open>Edge construction\<close>

text \<open>
  C6.  For bin centers of shape \<open>(*batch, num_bins)\<close> with at least two bins,
  \<open>_compute_edges\<close> returns an array of shape \<open>(*batch, num_bins + 1)\<close>; along the last
  axis its first entry is \<open>-1e10\<close>, its last entry is \<open>+1e10\<close>, and entry \<open>i\<close> for
  \<open>i = 1 .. num_bins - 1\<close> is the midpoint of the centers \<open>i - 1\<close> and \<open>i\<close>.
\<close>

theorem compute_edges_sentinels_midpoints:
  assumes "shape centers = batch @ [num_bins]" and "2 \<le> num_bins"
    and "valid_index batch bidx"
  shows "shape_of (compute_edges centers) = Some (batch @ [num_bins + 1])
    \<and> entry (compute_edges centers) (bidx @ [0]) = Some (- (10 ^ 10))
    \<and> entry (compute_edges centers) (bidx @ [num_bins]) = Some (10 ^ 10)
    \<and> (\<forall>i. 1 \<le> i \<and> i < num_bins \<longrightarrow>
          entry (compute_edges centers) (bidx @ [i])
            = Some ((item centers (bidx @ [i - 1]) + item centers (bidx @ [i])) / 2))"
proof -
  obtain e where e: "compute_edges centers = Some e" and sh: "shape e = batch @ [Suc num_bins]"
    using compute_edges_Some [OF assms(1,2)] by blast
  have it: "item e (bidx @ [i]) =
     (if i = 0 then - (10 ^ 10) else if i = num_bins then 10 ^ 10
      else (item centers (bidx @ [i]) + item centers (bidx @ [i - 1])) / 2)"
    if "i \<le> num_bins" for i
    using compute_edges_item [OF assms(1,3) e that] .
  show ?thesis
    using assms(2) sh it by (simp add: e entry_def shape_of_def add.commute)
qed

theorem compute_edges_sentinels_midpoints_witness:
  "shape_of (compute_edges example_centers) = Some [1, 4]
   \<and> entry (compute_edges example_centers) [0, 0] = Some (- (10 ^ 10))
   \<and> entry (compute_edges example_centers) [0, 1] = Some (3 / 2)
   \<and> entry (compute_edges example_centers) [0, 2] = Some (5 / 2)
   \<and> entry (compute_edges example_centers) [0, 3] = Some (10 ^ 10)"
proof -
  have sh: "shape example_centers = [1] @ [3]"
    by (simp add: example_shapes)
  have v: "valid_index [1] [0]"
    by (simp add: valid_index_def)
  have two: "2 \<le> (3::nat)"
    by simp
  note edges = compute_edges_sentinels_midpoints [OF sh two v]
  have mid: "entry (compute_edges example_centers) ([0] @ [i])
      = Some ((item example_centers ([0] @ [i - 1]) + item example_centers ([0] @ [i])) / 2)"
    if "1 \<le> i" "i < 3" for i
    using edges that by blast
  show ?thesis
    using edges mid [of 1] mid [of 2] by (simp add: example_center_values)
qed

text \<open>
  With a single bin the slice \<open>bin_centers.slice_axis(axis=-1, begin=1, end=None)\<close> is
  empty, which the library rejects: no edges are computed.
\<close>

theorem compute_edges_single_bin: "compute_edges (array2 [[5]]) = None"
  by (simp add: compute_edges_def array2_def slice_axis_def norm_axis_def)

section \<open>Closed forms of the reductions over the bin axis\<close>

text \<open>
  The two arrays of the object have the shape \<open>batch @ [N]\<close>: the batch shape, then
  the bin axis.  A query of the batch shape is an array, hence the batch shape has at
  least one axis.  \<open>bidx\<close> is the index of one batch element, \<open>bidx @ [j]\<close> the
  index of its bin \<open>j\<close>.
\<close>

lemma mean_closed:
  assumes "cache_ok self"
    and "shape (bin_log_probs self) = batch @ [N]" "shape (bin_centers self) = batch @ [N]"
    and "batch \<noteq> []" "valid_index batch bidx"
  shows "\<exists>r. fst (mean self) = Some r \<and> shape r = batch \<and>
     item r bidx = (\<Sum>j<N. exp_float32 (item (bin_log_probs self) (bidx @ [j]))
                        * item (bin_centers self) (bidx @ [j]))"
proof -
  have len: "length bidx = length batch"
    using assms(5) by (rule valid_index_length)
  show ?thesis
    using assms(2-5) len
    by (simp add: mean_def case_prod_beta fst_bin_probs[OF assms(1)] broadcast_mul_def
        broadcast_op_def map_nd_def sum_axis_last put_axis_len bcast_index_snoc
        cong: sum.cong_simp)
qed

lemma cache_ok_bin_probs: "cache_ok self \<Longrightarrow> cache_ok (snd (bin_probs self))"
  by (auto simp: cache_ok_def bin_probs_def Let_def)

lemma stddev_closed:
  assumes "cache_ok self"
    and "shape (bin_log_probs self) = batch @ [N]" "shape (bin_centers self) = batch @ [N]"
    and "batch \<noteq> []" "valid_index batch bidx"
  shows "\<exists>r. fst (stddev self) = Some r \<and> shape r = batch \<and>
     item r bidx = sqrt ((\<Sum>j<N. exp_float32 (item (bin_log_probs self) (bidx @ [j]))
                        * (item (bin_centers self) (bidx @ [j]))\<^sup>2)
            - (\<Sum>j<N. exp_float32 (item (bin_log_probs self) (bidx @ [j]))
                        * item (bin_centers self) (bidx @ [j]))\<^sup>2)"
proof -
  have len: "length bidx = length batch"
    using assms(5) by (rule valid_index_length)
  define self1 where "self1 = snd (bin_probs self)"
  have ok1: "cache_ok self1"
    using assms(1) by (simp add: self1_def cache_ok_bin_probs)
  obtain m where m: "fst (mean self1) = Some m" and shm: "shape m = batch"
    and im: "item m bidx = (\<Sum>j<N. exp_float32 (item (bin_log_probs self) (bidx @ [j]))
                        * item (bin_centers self) (bidx @ [j]))"
    using mean_closed [OF ok1, of batch N bidx] assms(2-5) by (auto simp: self1_def)
  have c1: "bin_centers self1 = bin_centers self"
    by (simp add: self1_def)
  have bp: "bin_probs self = (map_nd exp_float32 (bin_log_probs self), self1)"
    using fst_bin_probs [OF assms(1)] by (simp add: self1_def prod_eq_iff)
  obtain ex2 where ex2: "(do { weighted \<leftarrow> broadcast_mul (map_nd exp_float32 (bin_log_probs self))
                                  (map_nd (\<lambda>v. v * v) (bin_centers self));
                    sum_axis weighted (-1) }) = Some ex2" and she: "shape ex2 = batch"
    and ie: "item ex2 bidx = (\<Sum>j<N. exp_float32 (item (bin_log_probs self) (bidx @ [j]))
                        * (item (bin_centers self) (bidx @ [j]))\<^sup>2)"
    using assms(2-5) len
    by (simp add: broadcast_mul_def broadcast_op_def map_nd_def sum_axis_last put_axis_len
        bcast_index_snoc power2_eq_square cong: sum.cong_simp)
  obtain self2 where mm: "mean self1 = (Some m, self2)"
    using m by (cases "mean self1") auto
  show ?thesis
    unfolding stddev_def bp
    using assms(5) ex2 she ie shm im
    by (simp add: c1 mm broadcast_sub_def broadcast_op_def map_nd_def bcast_index_valid
        power2_eq_square)
qed

lemma cdf_closed:
  assumes "cache_ok self"
    and "shape (bin_log_probs self) = batch @ [N]" "shape (bin_centers self) = batch @ [N]"
    and "shape x = batch"
    and "batch \<noteq> []" "valid_index batch bidx"
  shows "\<exists>r. fst (cdf self x) = Some r \<and> shape r = batch \<and>
     item r bidx = (\<Sum>j<N. exp_float32 (item (bin_log_probs self) (bidx @ [j])) *
         (if item (bin_centers self) (bidx @ [j]) \<le> item x bidx then 1 else 0))"
proof -
  have len: "length bidx = length batch"
    using assms(6) by (rule valid_index_length)
  show ?thesis
    using assms(2-6) len
    by (simp add: cdf_def case_prod_beta fst_bin_probs[OF assms(1)] broadcast_mul_def
        broadcast_lesser_equal_def broadcast_op_def map_nd_def sum_axis_last put_axis_len
        drop_axis_len expand_dims_last bcast_index_snoc bcast_index_last_one
        cong: sum.cong_simp)
qed

lemma log_prob_closed:
  assumes "shape (bin_log_probs self) = batch @ [N]" "shape (bin_edges self) = batch @ [Suc N]"
    and "shape x = batch" "0 < N"
    and "batch \<noteq> []" "valid_index batch bidx"
  shows "\<exists>r. fst (log_prob self x) = Some r \<and> shape r = batch \<and>
     item r bidx = (\<Sum>j<N. item (bin_log_probs self) (bidx @ [j]) *
         ((if item (bin_edges self) (bidx @ [j]) \<le> item x bidx then 1 else 0)
          * (if item x bidx < item (bin_edges self) (bidx @ [Suc j]) then 1 else 0)))"
proof -
  have len: "length bidx = length batch"
    using assms(6) by (rule valid_index_length)
  have n1: "nat (int N) = N" "nat (1 + int N - 1) = N" "nat (int N + 1 - 1) = N"
    by simp_all
  show ?thesis
    using assms(1-6) len
    by (simp add: log_prob_def n1 slice_axis_def Let_def snoc_len
        broadcast_mul_def broadcast_lesser_def
        broadcast_lesser_equal_def broadcast_op_def map_nd_def sum_axis_last put_axis_len
        drop_axis_len expand_dims_last bcast_index_snoc bcast_index_last_one
        cong: sum.cong_simp)
qed

lemma bin_probs_item:
  "cache_ok self \<Longrightarrow> item (fst (bin_probs self)) idx = exp_float32 (item (bin_log_probs self) idx)"
  by (simp add: fst_bin_probs map_nd_def)

lemma example_valid: "valid_index [1] [0]" "[1::nat] \<noteq> []"
  by (simp_all add: valid_index_def)

lemma example_binned_shapes:
  "shape (bin_log_probs example_binned) = [1] @ [3]"
  "shape (bin_centers example_binned) = [1] @ [3]"
  by (simp_all add: example_binned_fields example_shapes)

section \<open>Cumulative distribution\<close>

text \<open>
  C4.  For a query \<open>x\<close> of the batch shape, \<open>cdf(x)\<close> has the batch shape, and its entry
  for a batch element is the sum of \<open>bin_probs\<close> over exactly the bins whose center is
  at most the query of that batch element.
\<close>

theorem cdf_sums_bins_up_to_center:
  assumes "reachable self"
    and "shape (bin_log_probs self) = batch @ [num_bins]"
    and "shape (bin_centers self) = batch @ [num_bins]"
    and "shape x = batch" and "batch \<noteq> []" and "valid_index batch bidx"
  shows "shape_of (fst (cdf self x)) = Some batch
    \<and> entry (fst (cdf self x)) bidx
        = Some (\<Sum>i \<in> {i. i < num_bins \<and> item (bin_centers self) (bidx @ [i]) \<le> item x bidx}.
                  item (fst (bin_probs self)) (bidx @ [i]))"
proof -
  have ok: "cache_ok self"
    using assms(1) by (rule reachable_cache)
  obtain r where r: "fst (cdf self x) = Some r" and sh: "shape r = batch"
    and it: "item r bidx = (\<Sum>j<num_bins. exp_float32 (item (bin_log_probs self) (bidx @ [j])) *
         (if item (bin_centers self) (bidx @ [j]) \<le> item x bidx then 1 else 0))"
    using cdf_closed [OF ok assms(2-6)] by blast
  have "item r bidx = (\<Sum>j \<in> {..<num_bins}.
      if item (bin_centers self) (bidx @ [j]) \<le> item x bidx
      then exp_float32 (item (bin_log_probs self) (bidx @ [j])) else 0)"
    unfolding it by (rule sum.cong) simp_all
  also have "\<dots> = (\<Sum>j \<in> {j \<in> {..<num_bins}. item (bin_centers self) (bidx @ [j]) \<le> item x bidx}.
      exp_float32 (item (bin_log_probs self) (bidx @ [j])))"
    by (rule sum.inter_filter [symmetric]) simp
  finally show ?thesis
    using r sh by (simp add: entry_def shape_of_def bin_probs_item [OF ok])
qed

theorem cdf_sums_bins_up_to_center_witness:
  "shape_of (fst (cdf example_binned (array1 [2]))) = Some [1]
   \<and> entry (fst (cdf example_binned (array1 [2]))) [0] = Some (1 / 2)"
proof -
  have ok: "cache_ok example_binned"
    using example_binned_reachable by (rule reachable_cache)
  have x: "shape (array1 [2 :: real]) = [1]"
    by (simp add: array1_def)
  have bins: "{i. i < 3 \<and> item example_centers [0, i] \<le> item (array1 [2]) [0]} = {0, 1}"
    by (auto simp: less_Suc_eq numeral_3_eq_3 example_centers_def array2_def array1_def)
  show ?thesis
    using cdf_sums_bins_up_to_center
      [OF example_binned_reachable example_binned_shapes x example_valid(2,1)]
    by (simp add: bins bin_probs_item [OF ok] example_binned_fields example_probs)
qed

text \<open>
  C8.  When the query \<open>x1\<close> is at most the query \<open>x2\<close> for a batch element, \<open>cdf(x1)\<close>
  is at most \<open>cdf(x2)\<close> for that batch element, whether the two calls are made on the
  same object or one after the other; every bin probability is non-negative.
\<close>

theorem cdf_nondecreasing:
  assumes "reachable self"
    and "shape (bin_log_probs self) = batch @ [num_bins]"
    and "shape (bin_centers self) = batch @ [num_bins]"
    and "shape x1 = batch" and "shape x2 = batch"
    and "batch \<noteq> []" and "valid_index batch bidx"
    and "item x1 bidx \<le> item x2 bidx"
  shows "\<exists>v1 v2 v3. entry (fst (cdf self x1)) bidx = Some v1
      \<and> entry (fst (cdf self x2)) bidx = Some v2
      \<and> entry (fst (cdf (snd (cdf self x1)) x2)) bidx = Some v3
      \<and> v1 \<le> v2 \<and> v3 = v2
      \<and> (\<forall>i. 0 \<le> item (fst (bin_probs self)) (bidx @ [i]))"
proof -
  have ok: "cache_ok self"
    using assms(1) by (rule reachable_cache)
  let ?p = "\<lambda>j. exp_float32 (item (bin_log_probs self) (bidx @ [j]))"
  let ?c = "\<lambda>j. item (bin_centers self) (bidx @ [j])"
  obtain r1 where r1: "fst (cdf self x1) = Some r1"
    and i1: "item r1 bidx = (\<Sum>j<num_bins. ?p j * (if ?c j \<le> item x1 bidx then 1 else 0))"
    using cdf_closed [OF ok assms(2,3,4,6,7)] by blast
  obtain r2 where r2: "fst (cdf self x2) = Some r2"
    and i2: "item r2 bidx = (\<Sum>j<num_bins. ?p j * (if ?c j \<le> item x2 bidx then 1 else 0))"
    using cdf_closed [OF ok assms(2,3,5,6,7)] by blast
  define self1 where "self1 = snd (cdf self x1)"
  have re1: "reachable self1"
    using assms(1) by (simp add: self1_def reachable.after_cdf)
  have f1: "bin_log_probs self1 = bin_log_probs self" "bin_centers self1 = bin_centers self"
    using snd_cdf [of self x1] by (auto simp: self1_def)
  obtain r3 where r3: "fst (cdf self1 x2) = Some r3"
    and i3: "item r3 bidx = (\<Sum>j<num_bins. ?p j * (if ?c j \<le> item x2 bidx then 1 else 0))"
    using cdf_closed [OF reachable_cache [OF re1], of batch num_bins x2 bidx] assms(2,3,5,6,7)
    by (auto simp: f1)
  have "item r1 bidx \<le> item r2 bidx"
    unfolding i1 i2 using assms(8) by (intro sum_mono mult_left_mono) auto
  then show ?thesis
    using r1 r2 r3 i2 i3 by (simp add: entry_def self1_def bin_probs_item [OF ok])
qed

theorem cdf_nondecreasing_witness:
  "\<exists>v1 v2 v3. entry (fst (cdf example_binned (array1 [1]))) [0] = Some v1
      \<and> entry (fst (cdf example_binned (array1 [2]))) [0] = Some v2
      \<and> entry (fst (cdf (snd (cdf example_binned (array1 [1]))) (array1 [2]))) [0] = Some v3
      \<and> v1 \<le> v2 \<and> v3 = v2
      \<and> (\<forall>i. 0 \<le> item (fst (bin_probs example_binned)) ([0] @ [i]))"
proof -
  have x: "shape (array1 [1 :: real]) = [1]" "shape (array1 [2 :: real]) = [1]"
    by (simp_all add: array1_def)
  have le: "item (array1 [1 :: real]) [0] \<le> item (array1 [2]) [0]"
    by (simp add: array1_def)
  show ?thesis
    using cdf_nondecreasing
      [OF example_binned_reachable example_binned_shapes x example_valid(2,1) le] .
qed

section \<open>Moments\<close>

text \<open>
  C7.  \<open>mean\<close> is the sum over the bins of \<open>bin_probs[i] * bin_centers[i]\<close>, and
  \<open>stddev\<close> is the square root of the sum of \<open>bin_probs[i] * bin_centers[i]^2\<close> minus
  the square of the mean, the radicand being passed to the square root as it is.  For the
  centers \<open>1, 2, 3\<close> and the probabilities \<open>0.2, 0.3, 0.5\<close> the mean is \<open>2.3\<close> and the
  standard deviation is the square root of \<open>5.9 - 5.29 = 0.61\<close>.
\<close>

theorem mean_and_stddev_formulas:
  assumes "reachable self"
    and "shape (bin_log_probs self) = batch @ [num_bins]"
    and "shape (bin_centers self) = batch @ [num_bins]"
    and "batch \<noteq> []" and "valid_index batch bidx"
  shows "entry (fst (mean self)) bidx
      = Some (\<Sum>i<num_bins. item (fst (bin_probs self)) (bidx @ [i])
                              * item (bin_centers self) (bidx @ [i]))
    \<and> entry (fst (stddev self)) bidx
      = Some (sqrt ((\<Sum>i<num_bins. item (fst (bin_probs self)) (bidx @ [i])
                              * (item (bin_centers self) (bidx @ [i]))\<^sup>2)
                  - (\<Sum>i<num_bins. item (fst (bin_probs self)) (bidx @ [i])
                              * item (bin_centers self) (bidx @ [i]))\<^sup>2))"
proof -
  have ok: "cache_ok self"
    using assms(1) by (rule reachable_cache)
  show ?thesis
    using mean_closed [OF ok assms(2-5)] stddev_closed [OF ok assms(2-5)]
    by (auto simp: entry_def bin_probs_item [OF ok])
qed

theorem mean_and_stddev_formulas_witness:
  "entry (fst (mean example_binned)) [0] = Some (23 / 10)
   \<and> entry (fst (stddev example_binned)) [0] = Some (sqrt (61 / 100))"
proof -
  have ok: "cache_ok example_binned"
    using example_binned_reachable by (rule reachable_cache)
  have three: "{..<3::nat} = {0, 1, 2}"
    by auto
  show ?thesis
    using mean_and_stddev_formulas
      [OF example_binned_reachable example_binned_shapes example_valid(2,1)]
    by (simp add: three bin_probs_item [OF ok] example_binned_fields example_probs
        example_center_values power2_eq_square)
qed

text \<open>The standard deviation of the example is not the square root of \<open>0.21\<close>.\<close>

theorem stddev_example_not_sqrt_021:
  "entry (fst (stddev example_binned)) [0] \<noteq> Some (sqrt (21 / 100))"
proof -
  have ok: "cache_ok example_binned"
    using example_binned_reachable by (rule reachable_cache)
  have three: "{..<3::nat} = {0, 1, 2}"
    by auto
  have "entry (fst (stddev example_binned)) [0] = Some (sqrt (61 / 100))"
    using stddev_closed [OF ok example_binned_shapes example_valid(2,1)]
    by (auto simp: entry_def three example_binned_fields example_probs example_center_values
        power2_eq_square)
  then show ?thesis
    by simp
qed

section \<open>Density\<close>

lemma reachable_edges_shape:
  assumes "reachable self" "shape (bin_centers self) = batch @ [N]"
  shows "shape (bin_edges self) = batch @ [Suc N]"
  using compute_edges_Some [OF assms(2) reachable_two [OF assms]] reachable_edges [OF assms(1)]
  by auto

lemma reachable_edge_item:
  assumes "reachable self" "shape (bin_centers self) = batch @ [N]"
    "valid_index batch bidx" "i \<le> N"
  shows "item (bin_edges self) (bidx @ [i]) =
     (if i = 0 then - (10 ^ 10) else if i = N then 10 ^ 10
      else (item (bin_centers self) (bidx @ [i]) + item (bin_centers self) (bidx @ [i - 1])) / 2)"
  using compute_edges_item [OF assms(2,3) reachable_edges [OF assms(1)] assms(4)] .

lemma inner_edges_mono:
  assumes "reachable self" "shape (bin_centers self) = batch @ [N]" "valid_index batch bidx"
    and mono: "\<forall>i j. i \<le> j \<and> j < N \<longrightarrow>
        item (bin_centers self) (bidx @ [i]) \<le> item (bin_centers self) (bidx @ [j])"
    and "0 < a" "a \<le> b" "b < N"
  shows "item (bin_edges self) (bidx @ [a]) \<le> item (bin_edges self) (bidx @ [b])"
proof -
  have "item (bin_centers self) (bidx @ [a]) \<le> item (bin_centers self) (bidx @ [b])"
    using mono assms(6,7) by blast
  moreover have "item (bin_centers self) (bidx @ [a - 1]) \<le> item (bin_centers self) (bidx @ [b - 1])"
    using mono assms(5,6,7) by (metis diff_le_mono less_imp_diff_less)
  ultimately show ?thesis
    using assms(5,6,7) reachable_edge_item [OF assms(1,2,3), of a]
      reachable_edge_item [OF assms(1,2,3), of b]
    by simp
qed

lemma example_edges:
  "item (bin_edges example_binned) [0, 0] = - (10 ^ 10)"
  "item (bin_edges example_binned) [0, Suc 0] = 3 / 2"
  "item (bin_edges example_binned) [0, 2] = 5 / 2"
  "item (bin_edges example_binned) [0, 3] = 10 ^ 10"
  using reachable_edge_item [OF example_binned_reachable example_binned_shapes(2) example_valid(1), of 0]
    reachable_edge_item [OF example_binned_reachable example_binned_shapes(2) example_valid(1), of 1]
    reachable_edge_item [OF example_binned_reachable example_binned_shapes(2) example_valid(1), of 2]
    reachable_edge_item [OF example_binned_reachable example_binned_shapes(2) example_valid(1), of 3]
  by (simp_all add: example_binned_fields example_center_values)

lemma example_edges_Suc:
  "item (bin_edges example_binned) [0, Suc (Suc 0)] = 5 / 2"
  "item (bin_edges example_binned) [0, Suc (Suc (Suc 0))] = 10 ^ 10"
  using example_edges(3,4) by (simp_all add: numeral_2_eq_2 numeral_3_eq_3)

lemma example_centers_mono:
  "\<forall>i j. i \<le> j \<and> j < 3 \<longrightarrow>
     item (bin_centers example_binned) ([0] @ [i]) \<le> item (bin_centers example_binned) ([0] @ [j])"
  by (auto simp: less_Suc_eq le_Suc_eq numeral_3_eq_3 example_binned_fields example_centers_def array2_def)

text \<open>
  C5.  When the centers of a batch element are non-decreasing along the bin axis and the
  query \<open>x\<close> of that batch element lies in the half-open interval from edge \<open>i\<close> to
  edge \<open>i + 1\<close>, \<open>log_prob(x)\<close> is \<open>bin_log_probs[i]\<close>; when the query lies in no
  such interval, \<open>log_prob(x)\<close> is zero.
\<close>

theorem log_prob_containing_bin:
  assumes "reachable self"
    and "shape (bin_log_probs self) = batch @ [num_bins]"
    and "shape (bin_centers self) = batch @ [num_bins]"
    and "shape x = batch" and "batch \<noteq> []" and "valid_index batch bidx"
    and mono: "\<forall>i j. i \<le> j \<and> j < num_bins \<longrightarrow>
        item (bin_centers self) (bidx @ [i]) \<le> item (bin_centers self) (bidx @ [j])"
  shows "(\<forall>i<num_bins.
            item (bin_edges self) (bidx @ [i]) \<le> item x bidx
            \<and> item x bidx < item (bin_edges self) (bidx @ [i + 1])
            \<longrightarrow> entry (fst (log_prob self x)) bidx = Some (item (bin_log_probs self) (bidx @ [i])))
    \<and> ((\<forall>i<num_bins. \<not> (item (bin_edges self) (bidx @ [i]) \<le> item x bidx
                            \<and> item x bidx < item (bin_edges self) (bidx @ [i + 1])))
         \<longrightarrow> entry (fst (log_prob self x)) bidx = Some 0)"
proof -
  let ?e = "\<lambda>j. item (bin_edges self) (bidx @ [j])"
  let ?l = "\<lambda>j. item (bin_log_probs self) (bidx @ [j])"
  let ?v = "item x bidx"
  let ?m = "\<lambda>j. (if ?e j \<le> ?v then 1 else 0) * (if ?v < ?e (Suc j) then 1 else (0::real))"
  have N: "2 \<le> num_bins"
    using assms(1,3) by (rule reachable_two)
  then have pos: "0 < num_bins" by simp
  obtain r where r: "fst (log_prob self x) = Some r"
    and it: "item r bidx = (\<Sum>j<num_bins. ?l j * ?m j)"
    using log_prob_closed [OF assms(2) reachable_edges_shape [OF assms(1,3)] assms(4) pos assms(5,6)]
    by blast
  have inside: "item r bidx = ?l i" if i: "i < num_bins" "?e i \<le> ?v" "?v < ?e (Suc i)" for i
  proof -
    have "?l j * ?m j = (if j = i then ?l i else 0)" if j: "j \<in> {..<num_bins}" for j
    proof -
      consider "j < i" | "j = i" | "i < j" by linarith
      then show ?thesis
      proof cases
        case 1
        then have "?e (Suc j) \<le> ?e i"
          using inner_edges_mono [OF assms(1,3,6) mono, of "Suc j" i] i(1) by simp
        then show ?thesis using 1 i(2) by simp
      next
        case 2
        then show ?thesis using i by simp
      next
        case 3
        then have "?e (Suc i) \<le> ?e j"
          using inner_edges_mono [OF assms(1,3,6) mono, of "Suc i" j] j by simp
        then show ?thesis using 3 i(3) by simp
      qed
    qed
    then have "item r bidx = (\<Sum>j\<in>{..<num_bins}. if j = i then ?l i else 0)"
      unfolding it by (rule sum.cong [OF refl])
    then show ?thesis
      using i(1) by simp
  qed
  have outside: "item r bidx = 0" if "\<forall>i<num_bins. \<not> (?e i \<le> ?v \<and> ?v < ?e (Suc i))"
  proof -
    have "?l j * ?m j = 0" if "j \<in> {..<num_bins}" for j
      using that \<open>\<forall>i<num_bins. \<not> (?e i \<le> ?v \<and> ?v < ?e (Suc i))\<close> by auto
    then show ?thesis
      unfolding it by (rule sum.neutral [OF ballI])
  qed
  show ?thesis
    using inside outside by (simp add: r entry_def)
qed


theorem log_prob_containing_bin_witness:
  "entry (fst (log_prob example_binned (array1 [17 / 10]))) [0] = Some (ln (3 / 10))
   \<and> entry (fst (log_prob example_binned (array1 [2 * 10 ^ 10]))) [0] = Some 0"
proof -
  have x: "shape (array1 [17 / 10 :: real]) = [1]" "shape (array1 [2 * 10 ^ 10 :: real]) = [1]"
    by (simp_all add: array1_def)
  note inside = log_prob_containing_bin
      [OF example_binned_reachable example_binned_shapes x(1) example_valid(2,1)
        example_centers_mono, THEN conjunct1, rule_format, of 1]
  note outside = log_prob_containing_bin
      [OF example_binned_reachable example_binned_shapes x(2) example_valid(2,1)
        example_centers_mono, THEN conjunct2, rule_format]
  have a: "entry (fst (log_prob example_binned (array1 [17 / 10]))) [0] = Some (ln (3 / 10))"
    using inside
    by (simp add: example_edges example_edges_Suc array1_def example_binned_fields
        example_log_probs_def array2_def)
  have "\<not> (item (bin_edges example_binned) ([0] @ [i]) \<le> item (array1 [2 * 10 ^ 10]) [0]
        \<and> item (array1 [2 * 10 ^ 10]) [0] < item (bin_edges example_binned) ([0] @ [i + 1]))"
    if "i < 3" for i
    using that
    by (auto simp: less_Suc_eq numeral_3_eq_3 example_edges example_edges_Suc array1_def)
  then have b: "entry (fst (log_prob example_binned (array1 [2 * 10 ^ 10]))) [0] = Some 0"
    using outside by blast
  show ?thesis
    using a b by simp
qed


section \<open>The scan of quantile\<close>

text \<open>
  One step of the scan takes the invariant \<open>scan_inv\<close> from \<open>k\<close> to \<open>k + 1\<close> bins, so
  the loop over all bins ends with the running sum and the running index of every batch
  element and level.
\<close>

lemma step_inv:
  assumes "scan_inv P level B L k st" "k < N" "shape P = [B, N]" "shape level = [L]"
    "swapaxes P 0 1 = Some probs" "expand_dims level 0 = Some level1"
  shows "\<exists>out st'. step zbs level1 (data_at probs k) st = Some (out, st')
      \<and> scan_inv P level B L (Suc k) st'"
  using assms
  by (cases st)
    (auto simp: scan_inv_def step_def swapaxes_def data_at_def expand_dims_def put_axis_def
      drop_axis_def broadcast_add_def broadcast_greater_def broadcast_op_def broadcast_shape_def
      bcast_index_def nd_where_def map_nd_def Let_def)

lemma loop_inv:
  assumes "shape P = [B, N]" "shape level = [L]"
    "swapaxes P 0 1 = Some probs" "expand_dims level 0 = Some level1"
  shows "k \<le> N \<Longrightarrow> scan_inv P level B L k st \<Longrightarrow>
     \<exists>outs st'. foreach_loop (step zbs level1) probs [k..<N] st = Some (outs, st')
        \<and> scan_inv P level B L N st'"
proof (induction "N - k" arbitrary: k st)
  case 0
  then show ?case by simp
next
  case (Suc d)
  then have kN: "k < N" by simp
  obtain out st1 where s1: "step zbs level1 (data_at probs k) st = Some (out, st1)"
    and i1: "scan_inv P level B L (Suc k) st1"
    using step_inv [OF Suc.prems(2) kN assms] by blast
  have "d = N - Suc k" using Suc.hyps(2) by simp
  from Suc.hyps(1) [OF this _ i1] kN
  obtain outs st2 where s2: "foreach_loop (step zbs level1) probs [Suc k..<N] st1 = Some (outs, st2)"
    and i2: "scan_inv P level B L N st2"
    by auto
  show ?case
    using kN s1 s2 i2 by (simp add: upt_conv_Cons)
qed

lemma quantile_scan_closed:
  assumes "cache_ok self" "shape (bin_log_probs self) = [B, N]" "shape level = [L]" "0 < N"
  shows "\<exists>z idx. fst (quantile_scan self level) = Some (z, idx) \<and>
      shape z = [B, L] \<and> shape idx = [B, L] \<and>
      (\<forall>b<B. \<forall>l<L. item z [b, l] = 0 \<and>
         item idx [b, l] = int (running_idx (\<lambda>j. exp_float32 (item (bin_log_probs self) [b, j]))
                                  (item level [l]) N))"
proof -
  define P where "P = map_nd exp_float32 (bin_log_probs self)"
  have shP: "shape P = [B, N]" by (simp add: P_def map_nd_def assms)
  obtain probs where pr: "swapaxes P 0 1 = Some probs" and shpr: "shape probs = [N, B]"
    using shP by (simp add: swapaxes_def)
  obtain level1 where l1: "expand_dims level 0 = Some level1" and shl: "shape level1 = [1, L]"
    using assms(3) by (simp add: expand_dims_def put_axis_def)
  obtain row where row: "slice_axis probs 0 0 (Some 1) = Some row" and shrow: "shape row = [1, B]"
    using shpr assms(4) by (simp add: slice_axis_def norm_axis_def)
  obtain row0 where row0: "squeeze row 0 = Some row0" and shrow0: "shape row0 = [B]"
    using shrow by (simp add: squeeze_def norm_axis_def drop_axis_def)
  define zbs where "zbs = zeros_like row0"
  obtain zb where zb: "expand_dims zbs 1 = Some zb" and shzb: "shape zb = [B, 1]"
    and izb: "\<And>idx. item zb idx = 0"
    using shrow0 by (simp add: zbs_def expand_dims_def put_axis_def zeros_like_def map_nd_def)
  have "\<exists>z. broadcast_add zb (zeros_like level1) = Some z \<and> shape z = [B, L]
      \<and> (\<forall>idx. item z idx = 0)"
    using shzb shl izb
    by (cases "L = Suc 0")
      (simp_all add: broadcast_add_def broadcast_op_def broadcast_shape_def zeros_like_def map_nd_def)
  then obtain z where z: "broadcast_add zb (zeros_like level1) = Some z" and shz: "shape z = [B, L]"
    and iz: "\<And>idx. item z idx = 0"
    by blast
  have inv0: "scan_inv P level B L 0 (z, astype_int32 z)"
    by (simp add: scan_inv_def shz iz astype_int32_def map_nd_def)
  obtain outs st' where lp: "foreach_loop (step zbs level1) probs [0..<N] (z, astype_int32 z) = Some (outs, st')"
    and invN: "scan_inv P level B L N st'"
    using loop_inv [where k=0 and zbs=zbs, OF shP assms(3) pr l1 _ inv0] by auto
  have fe: "foreach (step zbs level1) probs (z, astype_int32 z) = Some (outs, st')"
    using lp shpr by (simp add: foreach_def)
  have "fst (quantile_scan self level) = Some (z, snd st')"
    using pr row row0 l1 zb z fe
    by (simp add: quantile_scan_def case_prod_beta fst_bin_probs[OF assms(1)] P_def[symmetric] zbs_def[symmetric])
  moreover have "shape (snd st') = [B, L]"
    using invN by (simp add: scan_inv_def)
  moreover have "\<forall>b<B. \<forall>l<L. item z [b, l] = 0 \<and>
         item (snd st') [b, l] = int (running_idx (\<lambda>j. exp_float32 (item (bin_log_probs self) [b, j])) (item level [l]) N)"
    using invN iz by (simp add: scan_inv_def P_def map_nd_def)
  ultimately show ?thesis
    using shz by blast
qed

lemma quantile_tail:
  assumes "shape c = [B, N]" "shape z = [B, L]" "shape idx = [B, L]" "2 \<le> N"
    "\<forall>b<B. \<forall>l<L. item z [b, l] = 0"
  shows "\<exists>r. (do { centers1 \<leftarrow> expand_dims c 1;
               zeros1 \<leftarrow> expand_dims z (-1);
               centers_expanded \<leftarrow> broadcast_add centers1 zeros1;
               a \<leftarrow> pick centers_expanded idx (-1);
               swapaxes a 0 1 }) = Some r \<and> shape r = [L, B] \<and>
      (\<forall>b<B. \<forall>l<L. item r [l, b] = item c [b, clip_index N (item idx [b, l])])"
proof -
  have N: "0 < N" "N \<noteq> Suc 0" using assms(4) by auto
  obtain c1 where e1: "expand_dims c 1 = Some c1" and s1: "shape c1 = [B, 1, N]"
    and i1: "\<And>b l i. item c1 [b, l, i] = item c [b, i]"
    using assms(1) by (simp add: expand_dims_def put_axis_def drop_axis_def)
  obtain z1 where e2: "expand_dims z (-1) = Some z1" and s2: "shape z1 = [B, L, 1]"
    and i2: "\<And>b l i. item z1 [b, l, i] = item z [b, l]"
    using assms(2) by (simp add: expand_dims_def put_axis_def drop_axis_def)
  obtain ce where e3: "broadcast_add c1 z1 = Some ce" and s3: "shape ce = [B, L, N]"
    and i3: "\<And>b l i. b < B \<Longrightarrow> l < L \<Longrightarrow> i < N \<Longrightarrow> item ce [b, l, i] = item c [b, i]"
    using s1 s2 i1 i2 assms(4,5) N
    by (simp add: broadcast_add_def broadcast_op_def bcast_index_def)
  obtain a where e4: "pick ce idx (-1) = Some a" and s4: "shape a = [B, L]"
    and i4: "\<And>b l. item a [b, l] = item ce [b, l, clip_index N (item idx [b, l])]"
    using s3 assms(3)
    by (simp add: pick_def norm_axis_def drop_axis_def put_axis_def)
  obtain r where e5: "swapaxes a 0 1 = Some r" and s5: "shape r = [L, B]"
    and i5: "\<And>b l. item r [l, b] = item a [b, l]"
    using s4 by (simp add: swapaxes_def)
  show ?thesis
    using e1 e2 e3 e4 e5 s5 i5 i4 i3 clip_index_less[OF N(1)] by simp
qed

section \<open>The scan and the first crossing\<close>

text \<open>
  The running index counts the bins whose running sum does not exceed the level.  The
  running sums do not decrease, since no bin probability is negative; so the bins counted
  are exactly those before the first crossing.
\<close>

lemma running_cdf_sum: "running_cdf p k = (\<Sum>j<k. p j)"
  by (induction k) simp_all

lemma running_cdf_mono:
  assumes "\<And>j. 0 \<le> p j" "k \<le> k'"
  shows "running_cdf p k \<le> running_cdf p k'"
  using assms(2)
proof (induction k' rule: dec_induct)
  case base
  show ?case by simp
next
  case (step n)
  then show ?case using assms(1) [of n] by simp
qed

lemma find_snoc:
  "find Q (xs @ [x]) =
     (case find Q xs of None \<Rightarrow> (if Q x then Some x else None) | Some y \<Rightarrow> Some y)"
  by (induction xs) simp_all

lemma find_upt_Some:
  "find Q [0..<n] = Some i \<Longrightarrow> i < n \<and> Q i"
  by (auto simp: find_Some_iff)

lemma running_idx_find:
  assumes "\<And>j. 0 \<le> p j"
  shows "running_idx p lev n =
     (case find (\<lambda>i. lev < running_cdf p (Suc i)) [0..<n] of Some i \<Rightarrow> i | None \<Rightarrow> n)"
proof (induction n)
  case 0
  show ?case by simp
next
  case (Suc n)
  show ?case
  proof (cases "find (\<lambda>i. lev < running_cdf p (Suc i)) [0..<n]")
    case None
    then show ?thesis
      using Suc by (simp add: find_snoc)
  next
    case (Some i)
    then have "i < n" "lev < running_cdf p (Suc i)"
      using find_upt_Some [OF Some] by simp_all
    moreover have "running_cdf p (Suc i) \<le> running_cdf p (Suc n)"
      using assms \<open>i < n\<close> by (intro running_cdf_mono) simp_all
    ultimately have "lev < running_cdf p (Suc n)" by simp
    then show ?thesis
      using Suc Some by (simp add: find_snoc)
  qed
qed

lemma running_idx_first_exceeding:
  "cache_ok self \<Longrightarrow>
   running_idx (\<lambda>j. exp_float32 (item (bin_log_probs self) [b, j])) lev n
     = first_exceeding (fst (bin_probs self)) b n lev"
  by (simp add: running_idx_find first_exceeding_def cumulative_prob_def running_cdf_sum
      fst_bin_probs map_nd_def del: running_cdf.simps)

lemma quantile_closed:
  assumes "reachable self"
    and "shape (bin_log_probs self) = [B, N]" "shape (bin_centers self) = [B, N]"
    and "shape level = [L]"
  shows "\<exists>z idx r. fst (quantile_scan self level) = Some (z, idx)
      \<and> fst (quantile self level) = Some r
      \<and> shape idx = [B, L] \<and> shape r = [L, B]
      \<and> (\<forall>b<B. \<forall>l<L.
            item idx [b, l] = int (first_exceeding (fst (bin_probs self)) b N (item level [l]))
          \<and> item r [l, b] = item (bin_centers self)
               [b, min (first_exceeding (fst (bin_probs self)) b N (item level [l])) (N - 1)])"
proof -
  have ok: "cache_ok self"
    using assms(1) by (rule reachable_cache)
  have N: "2 \<le> N"
    using reachable_two [OF assms(1), of "[B]" N] assms(3) by simp
  then have pos: "0 < N" by simp
  obtain z idx where sc: "fst (quantile_scan self level) = Some (z, idx)"
    and shz: "shape z = [B, L]" and shi: "shape idx = [B, L]"
    and zi: "\<forall>b<B. \<forall>l<L. item z [b, l] = 0 \<and>
         item idx [b, l] = int (running_idx (\<lambda>j. exp_float32 (item (bin_log_probs self) [b, j]))
                                  (item level [l]) N)"
    using quantile_scan_closed [OF ok assms(2,4) pos] by blast
  have z0: "\<forall>b<B. \<forall>l<L. item z [b, l] = 0"
    using zi by simp
  obtain r where r: "(do { centers1 \<leftarrow> expand_dims (bin_centers self) 1;
               zeros1 \<leftarrow> expand_dims z (-1);
               centers_expanded \<leftarrow> broadcast_add centers1 zeros1;
               a \<leftarrow> pick centers_expanded idx (-1);
               swapaxes a 0 1 }) = Some r" and shr: "shape r = [L, B]"
    and ir: "\<forall>b<B. \<forall>l<L. item r [l, b] = item (bin_centers self) [b, clip_index N (item idx [b, l])]"
    using quantile_tail [OF assms(3) shz shi N z0] by blast
  obtain self1 where qs: "quantile_scan self level = (Some (z, idx), self1)"
    and c1: "bin_centers self1 = bin_centers self"
    using sc snd_quantile_scan [of self level]
    by (cases "quantile_scan self level") auto
  have q: "fst (quantile self level) = Some r"
    using r by (simp add: quantile_def qs c1)
  show ?thesis
    using sc q shi shr zi ir
    by (simp add: running_idx_first_exceeding [OF ok] clip_index_nat [OF pos])
qed


lemma cumulative_prob_mono:
  assumes "cache_ok self" "k \<le> k'"
  shows "cumulative_prob (fst (bin_probs self)) b k \<le> cumulative_prob (fst (bin_probs self)) b k'"
  unfolding cumulative_prob_def
  using assms(2) by (intro sum_mono2) (auto simp: bin_probs_item [OF assms(1)])

lemma first_exceeding_le: "first_exceeding probs b n lev \<le> n"
  using find_upt_Some [of "\<lambda>i. lev < cumulative_prob probs b (Suc i)" n]
  by (auto simp: first_exceeding_def split: option.splits)

lemma first_exceeding_char:
  assumes "cache_ok self" "k < n"
    and "cumulative_prob (fst (bin_probs self)) b k \<le> lev"
    and "lev < cumulative_prob (fst (bin_probs self)) b (Suc k)"
  shows "first_exceeding (fst (bin_probs self)) b n lev = k"
proof -
  let ?Q = "\<lambda>i. lev < cumulative_prob (fst (bin_probs self)) b (Suc i)"
  have "\<not> ?Q j" if "j < k" for j
    using cumulative_prob_mono [OF assms(1), of "Suc j" k b] that assms(3) by simp
  then have "find ?Q [0..<n] = Some k"
    using assms(2,4) by (auto simp: find_Some_iff intro!: exI [of _ k])
  then show ?thesis
    by (simp add: first_exceeding_def)
qed

lemma first_exceeding_eq_n:
  assumes "cache_ok self" "0 < n"
  shows "first_exceeding (fst (bin_probs self)) b n lev = n
     \<longleftrightarrow> cumulative_prob (fst (bin_probs self)) b n \<le> lev"
proof -
  let ?cp = "cumulative_prob (fst (bin_probs self)) b"
  let ?Q = "\<lambda>i. lev < ?cp (Suc i)"
  have "first_exceeding (fst (bin_probs self)) b n lev = n \<longleftrightarrow> find ?Q [0..<n] = None"
    using find_upt_Some [of ?Q n]
    by (auto simp: first_exceeding_def split: option.splits)
  also have "\<dots> \<longleftrightarrow> (\<forall>i<n. ?cp (Suc i) \<le> lev)"
    by (simp add: find_None_iff not_less) (metis not_le)
  also have "\<dots> \<longleftrightarrow> ?cp n \<le> lev"
  proof
    assume "\<forall>i<n. ?cp (Suc i) \<le> lev"
    then show "?cp n \<le> lev"
      using assms(2) by (cases n) auto
  next
    assume le: "?cp n \<le> lev"
    show "\<forall>i<n. ?cp (Suc i) \<le> lev"
    proof (intro allI impI)
      fix i assume "i < n"
      then have "?cp (Suc i) \<le> ?cp n"
        by (intro cumulative_prob_mono [OF assms(1)]) simp
      with le show "?cp (Suc i) \<le> lev" by simp
    qed
  qed
  finally show ?thesis .
qed






section \<open>Quantile inversion\<close>




text \<open>
  C2.  For a batch of rank one and a level array of shape \<open>(num_levels,)\<close>, \<open>quantile\<close>
  returns an array of shape \<open>(num_levels, batch_size)\<close>; its entry for a level below
  the total mass of the batch element is the center of the first bin whose cumulative
  mass strictly exceeds the level.
\<close>

theorem quantile_rank_one_batch:
  assumes "reachable self"
    and "shape (bin_log_probs self) = [batch_size, num_bins]"
    and "shape (bin_centers self) = [batch_size, num_bins]"
    and "shape level = [num_levels]"
  shows "shape_of (fst (quantile self level)) = Some [num_levels, batch_size]
    \<and> (\<forall>l<num_levels. \<forall>b<batch_size.
          item level [l] < cumulative_prob (fst (bin_probs self)) b num_bins
          \<longrightarrow> first_exceeding (fst (bin_probs self)) b num_bins (item level [l]) < num_bins
            \<and> entry (fst (quantile self level)) [l, b]
                = Some (item (bin_centers self)
                    [b, first_exceeding (fst (bin_probs self)) b num_bins (item level [l])]))"
proof -
  have ok: "cache_ok self"
    using assms(1) by (rule reachable_cache)
  have pos: "0 < num_bins"
    using reachable_two [OF assms(1), of "[batch_size]" num_bins] assms(3) by simp
  let ?P = "fst (bin_probs self)"
  obtain z idx r where sc: "fst (quantile_scan self level) = Some (z, idx)"
    and q: "fst (quantile self level) = Some r"
    and shi: "shape idx = [batch_size, num_levels]"
    and shr: "shape r = [num_levels, batch_size]"
    and all: "\<forall>b<batch_size. \<forall>l<num_levels.
            item idx [b, l] = int (first_exceeding ?P b num_bins (item level [l]))
          \<and> item r [l, b] = item (bin_centers self)
               [b, min (first_exceeding ?P b num_bins (item level [l])) (num_bins - 1)]"
    using quantile_closed [OF assms(1-4)] by blast
  have below: "first_exceeding ?P b num_bins lev < num_bins"
    if "lev < cumulative_prob ?P b num_bins" for b lev
    using first_exceeding_le [of ?P b num_bins lev] first_exceeding_eq_n [OF ok pos, of b lev] that
    by (simp add: le_less)
  have ent: "entry (fst (quantile self level)) [l, b]
      = Some (item (bin_centers self) [b, first_exceeding ?P b num_bins (item level [l])])"
    if "l < num_levels" "b < batch_size"
      "item level [l] < cumulative_prob ?P b num_bins" for l b
  proof -
    have "item r [l, b] = item (bin_centers self)
               [b, min (first_exceeding ?P b num_bins (item level [l])) (num_bins - 1)]"
      using all that(1,2) by blast
    moreover have "first_exceeding ?P b num_bins (item level [l]) \<le> num_bins - 1"
      using below [OF that(3)] by simp
    ultimately show ?thesis
      by (simp add: q entry_def min_absorb1)
  qed
  have shape_ok: "shape_of (fst (quantile self level)) = Some [num_levels, batch_size]"
    by (simp add: q shr shape_of_def)
  show ?thesis
  proof (intro conjI allI impI)
    show "shape_of (fst (quantile self level)) = Some [num_levels, batch_size]"
      by (rule shape_ok)
  next
    fix l b
    assume "l < num_levels" "b < batch_size"
      and "item level [l] < cumulative_prob ?P b num_bins"
    then show "first_exceeding ?P b num_bins (item level [l]) < num_bins"
      and "entry (fst (quantile self level)) [l, b]
        = Some (item (bin_centers self) [b, first_exceeding ?P b num_bins (item level [l])])"
      by (simp_all add: below ent)
  qed
qed

theorem quantile_rank_one_batch_witness:
  "shape_of (fst (quantile example_binned (array1 [1 / 5, 49 / 100, 51 / 100]))) = Some [3, 1]
   \<and> entry (fst (quantile example_binned (array1 [1 / 5, 49 / 100, 51 / 100]))) [2, 0] = Some 3"
proof -
  have ok: "cache_ok example_binned"
    using example_binned_reachable by (rule reachable_cache)
  let ?P = "fst (bin_probs example_binned)"
  let ?level = "array1 [1 / 5, 49 / 100, 51 / 100 :: real]"
  have sh: "shape (bin_log_probs example_binned) = [1, 3]"
    "shape (bin_centers example_binned) = [1, 3]" "shape ?level = [3]"
    by (simp_all add: example_binned_fields example_shapes array1_def)
  have cp: "cumulative_prob ?P 0 2 = 1 / 2" "cumulative_prob ?P 0 3 = 1"
    by (simp_all add: cumulative_prob_def lessThan_Suc numeral_2_eq_2 numeral_3_eq_3
        bin_probs_item [OF ok] example_binned_fields example_log_probs_def array2_def
        exp_float32_ln)
  have fe: "first_exceeding ?P 0 3 (51 / 100) = 2"
    using cp by (intro first_exceeding_char [OF ok]) (simp_all add: numeral_2_eq_2 numeral_3_eq_3)
  have lv: "item ?level [2] = 51 / 100"
    by (simp add: array1_def)
  note t = quantile_rank_one_batch [OF example_binned_reachable sh]
  have "entry (fst (quantile example_binned ?level)) [2, 0]
      = Some (item (bin_centers example_binned) [0, first_exceeding ?P 0 3 (item ?level [2])])"
    using t cp by (simp add: lv)
  then show ?thesis
    using t by (simp add: fe lv example_binned_fields example_center_values)
qed

text \<open>
  The center that \<open>quantile\<close> returns is not that of the first bin whose cumulative
  mass meets or exceeds the level: at the level \<open>0.2\<close> the example returns the center
  \<open>2\<close>, and the cumulative mass \<open>0.2\<close> of the first bin already meets the level.
\<close>

theorem quantile_not_first_reaching:
  "entry (fst (quantile example_binned (array1 [1 / 5]))) [0, 0]
     \<noteq> Some (item (bin_centers example_binned)
          [0, first_reaching (fst (bin_probs example_binned)) 0 3 (1 / 5)])"
proof -
  have ok: "cache_ok example_binned"
    using example_binned_reachable by (rule reachable_cache)
  let ?P = "fst (bin_probs example_binned)"
  let ?level = "array1 [1 / 5 :: real]"
  have sh: "shape (bin_log_probs example_binned) = [1, 3]"
    "shape (bin_centers example_binned) = [1, 3]" "shape ?level = [1]"
    by (simp_all add: example_binned_fields example_shapes array1_def)
  have cp: "cumulative_prob ?P 0 (Suc 0) = 1 / 5" "cumulative_prob ?P 0 2 = 1 / 2"
    by (simp_all add: cumulative_prob_def lessThan_Suc numeral_2_eq_2
        bin_probs_item [OF ok] example_binned_fields example_log_probs_def array2_def
        exp_float32_ln)
  have fe: "first_exceeding ?P 0 3 (1 / 5) = 1"
    using cp by (intro first_exceeding_char [OF ok]) (simp_all add: numeral_2_eq_2)
  have fr: "first_reaching ?P 0 3 (1 / 5) = 0"
    using cp(1) by (simp add: first_reaching_def upt_rec [of 0 3])
  have "entry (fst (quantile example_binned ?level)) [0, 0] = Some 2"
    using quantile_closed [OF example_binned_reachable sh]
    by (auto simp: entry_def fe array1_def example_binned_fields example_center_values)
  then show ?thesis
    by (simp add: fr example_binned_fields example_center_values)
qed

text \<open>
  On a batch of rank two, \<open>swapaxes(0, 1)\<close> exchanges the two batch axes and leaves the
  bins last; for two by two distributions of three bins and two levels the shapes
  \<open>(2, 1, 3)\<close> and \<open>(1, 2)\<close> do not broadcast, and \<open>quantile\<close> raises.
\<close>

lemma quantile_rank_two_batch_raises:
  "fst (quantile example_rank2_binned (array1 [1 / 5, 1 / 2])) = None"
proof -
  have "shape example_rank2_centers = [2, 2] @ [3]"
    by (simp add: example_rank2_centers_def array3_def)
  then obtain e where "compute_edges example_rank2_centers = Some e"
    using compute_edges_Some [of example_rank2_centers "[2, 2]" 3] by auto
  then have "Binned_init example_rank2_log_probs example_rank2_centers = Some example_rank2_binned"
    by (simp add: example_rank2_binned_def Binned_init_def)
  note f = Binned_init_fields [OF this]
  have "fst (quantile_scan example_rank2_binned (array1 [1 / 5, 1 / 2])) = None"
    by (simp add: quantile_scan_def bin_probs_def f Let_def example_rank2_log_probs_def
        array3_def array1_def map_nd_def swapaxes_def slice_axis_def norm_axis_def squeeze_def
        drop_axis_def put_axis_def zeros_like_def expand_dims_def broadcast_add_def
        broadcast_op_def broadcast_shape_def)
  then show ?thesis
    by (simp add: quantile_def case_prod_beta)
qed



section \<open>The cache of \<open>bin_probs\<close> and the arrays of the object\<close>

lemma same_arrays_refl: "same_arrays self self"
  by (simp add: same_arrays_def)

lemma same_arrays_bin_probs: "same_arrays self (snd (bin_probs self))"
  by (simp add: same_arrays_def)

text \<open>
  C9.  An access to \<open>bin_probs\<close> with an empty cache computes \<open>exp(bin_log_probs)\<close> and
  stores it; an access with a filled cache returns the stored array and leaves the
  object as it is, so the exponential is computed by the first access only and every
  later access returns the array the first one stored.  Every public operation leaves
  behind either the object it was called on or that object after one access to
  \<open>bin_probs\<close>: \<open>bin_log_probs\<close>, \<open>bin_centers\<close> and \<open>bin_edges\<close> are never
  assigned after construction.
\<close>

theorem bin_probs_memoized_and_arrays_kept:
  "(private_bin_probs self = None \<longrightarrow>
      bin_probs self = (map_nd exp_float32 (bin_log_probs self),
                        self\<lparr>private_bin_probs := Some (map_nd exp_float32 (bin_log_probs self))\<rparr>))
   \<and> (\<forall>p. private_bin_probs self = Some p \<longrightarrow> bin_probs self = (p, self))
   \<and> bin_probs (snd (bin_probs self)) = (fst (bin_probs self), snd (bin_probs self))
   \<and> (reachable self \<longrightarrow> fst (bin_probs self) = map_nd exp_float32 (bin_log_probs self))
   \<and> same_arrays self (snd (bin_probs self))
   \<and> same_arrays self (snd (log_prob self x))
   \<and> same_arrays self (snd (cdf self x))
   \<and> same_arrays self (snd (quantile self level))
   \<and> same_arrays self (snd (sample self sample_multinomial sample_multiple num_samples))
   \<and> same_arrays self (snd (mean self))
   \<and> same_arrays self (snd (stddev self))
   \<and> snd (log_prob self x) = self
   \<and> (snd (cdf self x) = self \<or> snd (cdf self x) = snd (bin_probs self))
   \<and> snd (quantile self level) = snd (bin_probs self)
   \<and> snd (sample self sample_multinomial sample_multiple num_samples) = snd (bin_probs self)
   \<and> snd (mean self) = snd (bin_probs self)
   \<and> snd (stddev self) = snd (bin_probs self)"
proof -
  have first: "private_bin_probs self = None \<longrightarrow>
      bin_probs self = (map_nd exp_float32 (bin_log_probs self),
                        self\<lparr>private_bin_probs := Some (map_nd exp_float32 (bin_log_probs self))\<rparr>)"
    by (simp add: bin_probs_def Let_def)
  have later: "\<forall>p. private_bin_probs self = Some p \<longrightarrow> bin_probs self = (p, self)"
    by (simp add: bin_probs_cached)
  have cached: "reachable self \<longrightarrow> fst (bin_probs self) = map_nd exp_float32 (bin_log_probs self)"
    by (simp add: fst_bin_probs reachable_cache)
  have cdf_same: "same_arrays self (snd (cdf self x))"
    using snd_cdf [of self x] same_arrays_refl [of self] same_arrays_bin_probs [of self] by auto
  show ?thesis
    using first later cached cdf_same snd_cdf [of self x]
    by (simp add: bin_probs_twice snd_log_prob snd_quantile snd_sample snd_mean snd_stddev
        same_arrays_refl same_arrays_bin_probs)
qed

theorem bin_probs_memoized_and_arrays_kept_witness:
  "private_bin_probs example_binned = None
   \<and> bin_probs example_binned
       = (map_nd exp_float32 example_log_probs,
          example_binned\<lparr>private_bin_probs := Some (map_nd exp_float32 example_log_probs)\<rparr>)
   \<and> bin_probs (snd (bin_probs example_binned))
       = (map_nd exp_float32 example_log_probs, snd (bin_probs example_binned))
   \<and> same_arrays example_binned (snd (quantile example_binned (array1 [1 / 5])))"
proof -
  have none: "private_bin_probs example_binned = None"
    using Binned_init_fields(3) [OF example_binned_init] .
  note t = bin_probs_memoized_and_arrays_kept
    [of example_binned "array1 [1 / 5]" "array1 [1 / 5]" "\<lambda>_. None" "\<lambda>_ _ _. None" None]
  have first: "bin_probs example_binned
       = (map_nd exp_float32 example_log_probs,
          example_binned\<lparr>private_bin_probs := Some (map_nd exp_float32 example_log_probs)\<rparr>)"
    using t none by (simp add: example_binned_fields)
  have twice: "bin_probs (snd (bin_probs example_binned))
       = (fst (bin_probs example_binned), snd (bin_probs example_binned))"
    using t by blast
  have same: "same_arrays example_binned (snd (quantile example_binned (array1 [1 / 5])))"
    using t by blast
  show ?thesis
    using none first twice same by simp
qed

section \<open>Location and scale\<close>

text \<open>
  C10.  \<open>BinnedOutput.distribution\<close>, called with the probabilities of shape
  \<open>(*batch, num_bins)\<close> and the stored centers of shape \<open>(num_bins,)\<close>, builds a
  \<open>Binned\<close> whose \<open>bin_log_probs\<close> is the probability argument itself and whose
  centers have the shape of the probabilities: the center of bin \<open>i\<close> of a batch
  element is the stored center \<open>i\<close>, multiplied by the scale of the batch element
  when a scale is given, and then shifted by its location when a location is given.
\<close>

theorem distribution_scales_then_shifts:
  assumes "shape probs = batch @ [num_bins]" and "shape centers = [num_bins]"
    and "2 \<le> num_bins"
    and "case scale of None \<Rightarrow> True | Some sc \<Rightarrow> shape sc = batch"
    and "case loc of None \<Rightarrow> True | Some lc \<Rightarrow> shape lc = batch"
    and "valid_index batch bidx" and "i < num_bins"
  shows "\<exists>d. distribution [probs, centers] loc scale = Some d
      \<and> bin_log_probs d = probs
      \<and> shape (bin_centers d) = shape probs
      \<and> item (bin_centers d) (bidx @ [i])
          = (let scaled = (case scale of None \<Rightarrow> item centers [i]
                           | Some sc \<Rightarrow> item centers [i] * item sc bidx)
             in case loc of None \<Rightarrow> scaled | Some lc \<Rightarrow> scaled + item lc bidx)"
proof -
  have len: "length bidx = length batch"
    using assms(6) by (rule valid_index_length)
  obtain c1 where c1: "broadcast_mul centers (ones_like probs) = Some c1"
    and s1: "shape c1 = batch @ [num_bins]"
    and i1: "item c1 (bidx @ [i]) = item centers [i]"
    using assms(1,2,3)
    by (simp add: broadcast_mul_def broadcast_op_def ones_like_def map_nd_def bcast_index_vector)
  obtain c2 where c2: "(case scale of None \<Rightarrow> Some c1
                       | Some sc \<Rightarrow> do { sc1 \<leftarrow> expand_dims sc (-1);
                                          broadcast_mul c1 sc1 }) = Some c2"
    and s2: "shape c2 = batch @ [num_bins]"
    and i2: "item c2 (bidx @ [i]) = (case scale of None \<Rightarrow> item centers [i]
                           | Some sc \<Rightarrow> item centers [i] * item sc bidx)"
    using assms(4,6,7) s1 i1 len
    by (cases scale)
      (simp_all add: expand_dims_last broadcast_mul_def broadcast_op_def bcast_index_snoc
        bcast_index_last_one drop_axis_len)
  obtain c3 where c3: "(case loc of None \<Rightarrow> Some c2
                       | Some lc \<Rightarrow> do { lc1 \<leftarrow> expand_dims lc (-1);
                                          broadcast_add c2 lc1 }) = Some c3"
    and s3: "shape c3 = batch @ [num_bins]"
    and i3: "item c3 (bidx @ [i]) = (case loc of None \<Rightarrow> item c2 (bidx @ [i])
                           | Some lc \<Rightarrow> item c2 (bidx @ [i]) + item lc bidx)"
    using assms(5,6,7) s2 len
    by (cases loc)
      (simp_all add: expand_dims_last broadcast_add_def broadcast_op_def bcast_index_snoc
        bcast_index_last_one drop_axis_len)
  obtain e where e: "compute_edges c3 = Some e"
    using compute_edges_Some [OF s3 assms(3)] by blast
  have "distribution [probs, centers] loc scale
      = Some \<lparr>bin_centers = c3, bin_log_probs = probs, private_bin_probs = None, bin_edges = e\<rparr>"
    by (simp add: distribution_def c1 c2 c3 e Binned_init_def)
  then show ?thesis
    using s3 i3 i2 assms(1) by (simp add: Let_def split: option.splits)
qed

theorem distribution_scales_then_shifts_witness:
  "\<exists>d. distribution [example_log_probs, array1 [1, 2, 3]] (Some (array1 [10])) (Some (array1 [2]))
          = Some d
      \<and> bin_log_probs d = example_log_probs
      \<and> shape (bin_centers d) = [1, 3]
      \<and> item (bin_centers d) [0, 2] = 16"
proof -
  have sh: "shape example_log_probs = [1] @ [3]" "shape (array1 [1, 2, 3 :: real]) = [3]"
    by (simp_all add: example_shapes array1_def)
  have sc: "case Some (array1 [2 :: real]) of None \<Rightarrow> True | Some sc \<Rightarrow> shape sc = [1]"
    and lc: "case Some (array1 [10 :: real]) of None \<Rightarrow> True | Some lc \<Rightarrow> shape lc = [1]"
    by (simp_all add: array1_def)
  have two: "2 \<le> (3::nat)" "2 < (3::nat)"
    by simp_all
  show ?thesis
    using distribution_scales_then_shifts [OF sh two(1) sc lc example_valid(1) two(2)]
    by (simp add: array1_def example_shapes)
qed

end
